theory Spec2Isabelle
  imports Complex_Main "HOL-Library.Product_Lexorder" "HOL-Library.AList" "HOL-Library.Log_Nat"
begin

section \<open>Text utilities (tools/utilities.py)\<close>

text \<open>
  Python strings are modelled as \<open>string\<close>, restricted to the code points below 256.
  \<open>isspace\<close> is the whitespace test shared by \<open>str.strip\<close>, \<open>str.split\<close> and the
  regular expression class \<open>\s\<close> of a \<open>str\<close> pattern: tab, line feed, vertical tab,
  form feed, carriage return, the separators 0x1C to 0x1F, space, 0x85 and 0xA0.
  The classes \<open>[a-z]\<close> and \<open>[A-Z]\<close> of \<open>normalize_text\<close> are the ASCII ranges.

  \<open>normalize_text\<close> is the composition of the four steps of the source: \<open>replace_nl\<close> is
  \<open>text.replace("\n", " ")\<close>, \<open>sub_ws\<close> is \<open>re.sub(r"\s+", " ", text)\<close> (each maximal run of
  whitespace becomes one space), \<open>sub_join\<close> is \<open>re.sub(r"([a-z])([A-Z])", r"\1 \2", text)\<close>
  (matches are found left to right and do not overlap) and \<open>strip\<close> is \<open>str.strip()\<close>.
\<close>

definition isspace :: "char \<Rightarrow> bool" where
  "isspace c = (let n = (of_char c :: nat) in
     (9 \<le> n \<and> n \<le> 13) \<or> (28 \<le> n \<and> n \<le> 32) \<or> n = 133 \<or> n = 160)"

definition islower_az :: "char \<Rightarrow> bool" where
  "islower_az c = (97 \<le> (of_char c :: nat) \<and> (of_char c :: nat) \<le> 122)"

definition isupper_AZ :: "char \<Rightarrow> bool" where
  "isupper_AZ c = (65 \<le> (of_char c :: nat) \<and> (of_char c :: nat) \<le> 90)"

definition replace_nl :: "string \<Rightarrow> string" where
  "replace_nl text = map (\<lambda>c. if c = CHR 0x0A then CHR '' '' else c) text"

function sub_ws :: "string \<Rightarrow> string" where
  "sub_ws [] = []"
| "sub_ws (c # cs) =
     (if isspace c then CHR '' '' # sub_ws (dropWhile isspace cs) else c # sub_ws cs)"
  by pat_completeness auto
termination
  by (relation "measure length") (auto simp: length_dropWhile_le less_Suc_eq_le)

fun sub_join :: "string \<Rightarrow> string" where
  "sub_join (a # b # cs) =
     (if islower_az a \<and> isupper_AZ b then a # CHR '' '' # b # sub_join cs
      else a # sub_join (b # cs))"
| "sub_join cs = cs"

definition strip :: "string \<Rightarrow> string" where
  "strip s = rev (dropWhile isspace (rev (dropWhile isspace s)))"

definition normalize_text :: "string \<Rightarrow> string" where
  "normalize_text text = strip (sub_join (sub_ws (replace_nl text)))"

fun split_acc :: "string \<Rightarrow> string \<Rightarrow> string list" where
  "split_acc [] w = (if w = [] then [] else [w])"
| "split_acc (c # cs) w =
     (if isspace c then (if w = [] then split_acc cs [] else w # split_acc cs [])
      else split_acc cs (w @ [c]))"

definition split_ws :: "string \<Rightarrow> string list" where
  "split_ws s = split_acc s []"

definition fullmatch_initial :: "string \<Rightarrow> bool" where
  "fullmatch_initial mid =
     (case mid of
        [c] \<Rightarrow> isupper_AZ c
      | [c, d] \<Rightarrow> isupper_AZ c \<and> d = CHR ''.''
      | _ \<Rightarrow> False)"

definition strip_middle_initial :: "string \<Rightarrow> string" where
  "strip_middle_initial name =
     (case split_ws name of
        [first, mid, last'] \<Rightarrow>
          if fullmatch_initial mid then first @ '' '' @ last' else name
      | _ \<Rightarrow> name)"


section \<open>difflib.SequenceMatcher, as \<open>similarity\<close> and \<open>score_person\<close> call it\<close>

text \<open>
  \<open>similarity\<close> and \<open>score_person\<close> return \<open>SequenceMatcher(None, a, b).ratio()\<close> of Python's
  standard library. The definitions below follow the library's methods for \<open>isjunk = None\<close>
  and \<open>autojunk = True\<close>, the way the source constructs the matcher:
  \<^item> \<open>chain_b\<close> builds \<open>b2j\<close>, the positions of every element of \<open>b\<close>, and drops the elements
    that occur more than \<open>n div 100 + 1\<close> times once \<open>b\<close> has 200 elements or more;
  \<^item> \<open>find_longest_match\<close> runs the two nested loops over \<open>a[alo:ahi]\<close> and \<open>b2j\<close>
    (\<open>flm_outer\<close>, \<open>flm_inner\<close>) and then the four extension loops (\<open>extend_left\<close>,
    \<open>extend_right\<close>, first over non-junk, then over junk elements; the junk set is empty);
  \<^item> \<open>match_loop\<close> is the work-list loop of \<open>get_matching_blocks\<close>: the Python list
    \<open>queue\<close> is used as a stack, so its last element is the head of the model's list;
  \<^item> \<open>collapse\<close> merges adjacent blocks after sorting, and \<open>ratio\<close> is
    \<open>2.0 * matches / length\<close>, or 1.0 when both sequences are empty.
  Dictionaries are association lists in insertion order (\<open>dict_get\<close> is \<open>d.get(k, default)\<close>,
  \<open>dict_set\<close> is \<open>d[k] = v\<close>). Indices are natural numbers: \<open>j2len.get(j - 1, 0)\<close> at
  \<open>j = 0\<close> asks for the key -1, which is never present, so the model returns the default
  there; \<open>i - k + 1\<close> is written \<open>Suc i - k\<close>, and \<open>find_longest_match_bounds\<close> shows that
  the subtraction never truncates.

  Similarity values and thresholds are rational numbers. The source computes them as
  IEEE doubles: \<open>ratio\<close> is the correctly rounded quotient of two integers and a threshold
  such as 0.85 is the correctly rounded decimal, so a comparison of a ratio with a
  threshold has the same outcome as the comparison of the exact rationals for all
  strings a machine can hold.
\<close>

type_synonym block = "nat \<times> nat \<times> nat"
type_synonym ('k, 'v) dict = "('k \<times> 'v) list"

definition dict_get :: "('k, 'v) dict \<Rightarrow> 'k \<Rightarrow> 'v \<Rightarrow> 'v" where
  "dict_get d k dflt = (case map_of d k of None \<Rightarrow> dflt | Some v \<Rightarrow> v)"

definition dict_set :: "('k, 'v) dict \<Rightarrow> 'k \<Rightarrow> 'v \<Rightarrow> ('k, 'v) dict" where
  "dict_set d k v = AList.update k v d"

type_synonym 'a b2j = "('a, nat list) dict"

definition chain_b :: "'a list \<Rightarrow> 'a b2j" where
  "chain_b b =
     (let b2j = fold (\<lambda>(i, elt) m. dict_set m elt (dict_get m elt [] @ [i])) (enumerate 0 b) [];
          n = length b
      in if n \<ge> 200
         then (let ntest = n div 100 + 1
               in filter (\<lambda>(elt, idxs). \<not> length idxs > ntest) b2j)
         else b2j)"

definition isbjunk :: "'a \<Rightarrow> bool" where
  "isbjunk elt = False"

fun flm_inner :: "nat \<Rightarrow> nat \<Rightarrow> nat \<Rightarrow> (nat, nat) dict \<Rightarrow> nat list
    \<Rightarrow> (nat, nat) dict \<times> block \<Rightarrow> (nat, nat) dict \<times> block" where
  "flm_inner blo bhi i j2len [] st = st"
| "flm_inner blo bhi i j2len (j # js) (newj2len, besti, bestj, bestsize) =
     (if j < blo then flm_inner blo bhi i j2len js (newj2len, besti, bestj, bestsize)
      else if j \<ge> bhi then (newj2len, besti, bestj, bestsize)
      else
        let k = (if j = 0 then 0 else dict_get j2len (j - 1) 0) + 1
        in if k > bestsize
           then flm_inner blo bhi i j2len js (dict_set newj2len j k, Suc i - k, Suc j - k, k)
           else flm_inner blo bhi i j2len js (dict_set newj2len j k, besti, bestj, bestsize))"

fun flm_outer :: "'a list \<Rightarrow> 'a b2j \<Rightarrow> nat \<Rightarrow> nat \<Rightarrow> nat list
    \<Rightarrow> (nat, nat) dict \<times> block \<Rightarrow> block" where
  "flm_outer a b2j blo bhi [] (j2len, best) = best"
| "flm_outer a b2j blo bhi (i # is) (j2len, best) =
     flm_outer a b2j blo bhi is
       (flm_inner blo bhi i j2len (dict_get b2j (a ! i) []) ([], best))"

function extend_left :: "'a list \<Rightarrow> 'a list \<Rightarrow> nat \<Rightarrow> nat \<Rightarrow> bool \<Rightarrow> block \<Rightarrow> block" where
  "extend_left a b alo blo junk (besti, bestj, bestsize) =
     (if besti > alo \<and> bestj > blo \<and> isbjunk (b ! (bestj - 1)) = junk
         \<and> a ! (besti - 1) = b ! (bestj - 1)
      then extend_left a b alo blo junk (besti - 1, bestj - 1, bestsize + 1)
      else (besti, bestj, bestsize))"
  by pat_completeness auto
termination
  by (relation "measure (\<lambda>(a, b, alo, blo, junk, besti, bestj, bestsize). besti)") auto

function extend_right :: "'a list \<Rightarrow> 'a list \<Rightarrow> nat \<Rightarrow> nat \<Rightarrow> bool \<Rightarrow> block \<Rightarrow> block" where
  "extend_right a b ahi bhi junk (besti, bestj, bestsize) =
     (if besti + bestsize < ahi \<and> bestj + bestsize < bhi \<and> isbjunk (b ! (bestj + bestsize)) = junk
         \<and> a ! (besti + bestsize) = b ! (bestj + bestsize)
      then extend_right a b ahi bhi junk (besti, bestj, bestsize + 1)
      else (besti, bestj, bestsize))"
  by pat_completeness auto
termination
  by (relation "measure (\<lambda>(a, b, ahi, bhi, junk, besti, bestj, bestsize). ahi - (besti + bestsize))") auto

declare extend_left.simps [simp del] extend_right.simps [simp del]

definition find_longest_match :: "'a list \<Rightarrow> 'a list \<Rightarrow> 'a b2j \<Rightarrow> nat \<Rightarrow> nat \<Rightarrow> nat \<Rightarrow> nat \<Rightarrow> block" where
  "find_longest_match a b b2j alo ahi blo bhi =
     extend_right a b ahi bhi True
       (extend_left a b alo blo True
         (extend_right a b ahi bhi False
           (extend_left a b alo blo False
             (flm_outer a b2j blo bhi [alo..<ahi] ([], alo, blo, 0)))))"


definition J_ok :: "nat \<Rightarrow> nat \<Rightarrow> nat \<Rightarrow> (nat, nat) dict \<Rightarrow> bool" where
  "J_ok alo blo i j2len = (\<forall>j v. map_of j2len j = Some v \<longrightarrow> v + alo \<le> i \<and> v + blo \<le> Suc j)"

fun B_ok :: "nat \<Rightarrow> nat \<Rightarrow> nat \<Rightarrow> nat \<Rightarrow> block \<Rightarrow> bool" where
  "B_ok alo ahi blo bhi (i, j, k) =
     (alo \<le> i \<and> blo \<le> j \<and> (if k = 0 then i = alo \<and> j = blo else i + k \<le> ahi \<and> j + k \<le> bhi))"

lemma flm_inner_inv:
  assumes "alo \<le> i" "i < ahi" "J_ok alo blo i j2len"
  shows "J_ok alo blo (Suc i) new \<Longrightarrow> B_ok alo ahi blo bhi best \<Longrightarrow>
     J_ok alo blo (Suc i) (fst (flm_inner blo bhi i j2len js (new, best))) \<and>
     B_ok alo ahi blo bhi (snd (flm_inner blo bhi i j2len js (new, best)))"
proof (induction js arbitrary: new best)
  case Nil
  then show ?case by simp
next
  case (Cons j js)
  obtain bi bj bs where best: "best = (bi, bj, bs)" by (cases best)
  show ?case
  proof (cases "j < blo \<or> bhi \<le> j")
    case True
    with Cons best show ?thesis by auto
  next
    case False
    then have j: "blo \<le> j" "j < bhi" by auto
    define k where "k = (if j = 0 then 0 else dict_get j2len (j - 1) 0) + 1"
    have k: "k + alo \<le> Suc i \<and> k + blo \<le> Suc j \<and> 0 < k"
    proof (cases "j = 0 \<or> map_of j2len (j - 1) = None")
      case True
      then show ?thesis using assms j by (auto simp: k_def dict_get_def)
    next
      case F: False
      then obtain v where v: "j \<noteq> 0" "map_of j2len (j - 1) = Some v" by auto
      with assms(3) have "v + alo \<le> i \<and> v + blo \<le> Suc (j - 1)" unfolding J_ok_def by blast
      with v show ?thesis by (simp add: k_def dict_get_def)
    qed
    have step: "flm_inner blo bhi i j2len (j # js) (new, best) =
        flm_inner blo bhi i j2len js
          (dict_set new j k, if bs < k then (Suc i - k, Suc j - k, k) else best)"
      using False best by (simp add: k_def Let_def)
    have J': "J_ok alo blo (Suc i) (dict_set new j k)"
      using Cons.prems(1) k unfolding J_ok_def dict_set_def by (auto simp: update_conv')
    have B': "B_ok alo ahi blo bhi (if bs < k then (Suc i - k, Suc j - k, k) else best)"
      using k assms j Cons.prems(2) by auto
    from Cons.IH[OF J' B'] show ?thesis unfolding step .
  qed
qed

lemma flm_outer_inv:
  "alo \<le> m \<Longrightarrow> J_ok alo blo m j2len \<Longrightarrow> B_ok alo ahi blo bhi best \<Longrightarrow>
   B_ok alo ahi blo bhi (flm_outer a b2j blo bhi [m..<ahi] (j2len, best))"
proof (induction "ahi - m" arbitrary: m j2len best)
  case 0
  then show ?case by simp
next
  case (Suc n)
  then have m: "m < ahi" by simp
  let ?st = "flm_inner blo bhi m j2len (dict_get b2j (a ! m) []) ([], best)"
  have e: "J_ok alo blo (Suc m) []" by (simp add: J_ok_def)
  from flm_inner_inv[OF Suc.prems(1) m Suc.prems(2) e Suc.prems(3)]
  have 1: "J_ok alo blo (Suc m) (fst ?st)" and 2: "B_ok alo ahi blo bhi (snd ?st)" by auto
  have "n = ahi - Suc m" using Suc.hyps(2) by simp
  from Suc.hyps(1)[OF this _ 1 2] Suc.prems(1)
  have "B_ok alo ahi blo bhi (flm_outer a b2j blo bhi [Suc m..<ahi] (fst ?st, snd ?st))" by simp
  then show ?case using m by (simp add: upt_conv_Cons)
qed

lemma extend_left_inv:
  "B_ok alo ahi blo bhi best \<Longrightarrow> B_ok alo ahi blo bhi (extend_left a b alo blo junk best)"
proof (induction a b alo blo junk best rule: extend_left.induct)
  case (1 a b alo blo junk besti bestj bestsize)
  let ?g = "besti > alo \<and> bestj > blo \<and> isbjunk (b ! (bestj - 1)) = junk
         \<and> a ! (besti - 1) = b ! (bestj - 1)"
  show ?case
  proof (cases ?g)
    case True
    with 1(2) have "B_ok alo ahi blo bhi (besti - 1, bestj - 1, bestsize + 1)"
      by (auto split: if_splits)
    from 1(1)[OF True this] True show ?thesis
      by (subst extend_left.simps) (simp only: if_True simp_thms)
  next
    case False
    with 1(2) show ?thesis by (subst extend_left.simps) (simp only: if_False)
  qed
qed

lemma extend_right_inv:
  "B_ok alo ahi blo bhi best \<Longrightarrow> B_ok alo ahi blo bhi (extend_right a b ahi bhi junk best)"
proof (induction a b ahi bhi junk best rule: extend_right.induct)
  case (1 a b ahi bhi junk besti bestj bestsize)
  let ?g = "besti + bestsize < ahi \<and> bestj + bestsize < bhi
         \<and> isbjunk (b ! (bestj + bestsize)) = junk
         \<and> a ! (besti + bestsize) = b ! (bestj + bestsize)"
  show ?case
  proof (cases ?g)
    case True
    with 1(2) have "B_ok alo ahi blo bhi (besti, bestj, bestsize + 1)"
      by (auto split: if_splits)
    from 1(1)[OF True this] True show ?thesis
      by (subst extend_right.simps) (simp only: if_True simp_thms)
  next
    case False
    with 1(2) show ?thesis by (subst extend_right.simps) (simp only: if_False)
  qed
qed

lemma find_longest_match_inv:
  "B_ok alo ahi blo bhi (find_longest_match a b b2j alo ahi blo bhi)"
  unfolding find_longest_match_def
  by (intro extend_left_inv extend_right_inv flm_outer_inv) (simp_all add: J_ok_def)

lemma find_longest_match_bounds:
  assumes "find_longest_match a b b2j alo ahi blo bhi = (i, j, k)"
  shows "alo \<le> i \<and> blo \<le> j \<and> (k \<noteq> 0 \<longrightarrow> i + k \<le> ahi \<and> j + k \<le> bhi)"
  using find_longest_match_inv[of alo ahi blo bhi a b b2j] assms by (auto split: if_splits)

type_synonym region = "nat \<times> nat \<times> nat \<times> nat"

definition region_size :: "region \<Rightarrow> nat" where
  "region_size r = (case r of (alo, ahi, blo, bhi) \<Rightarrow> 2 * (ahi - alo) + 1)"

lemma region_decrease:
  assumes "alo \<le> i" "k \<noteq> 0" "i + k \<le> ahi"
  shows "sum_list (map region_size
           ((if c2 then [(i + k, ahi, j + k, bhi)] else [])
            @ (if c1 then [(alo, i, blo, j)] else []) @ queue))
         < sum_list (map region_size ((alo, ahi, blo, bhi) # queue))"
  using assms by (cases c1; cases c2) (simp_all add: region_size_def)

function match_loop :: "'a list \<Rightarrow> 'a list \<Rightarrow> 'a b2j \<Rightarrow> region list \<Rightarrow> block list \<Rightarrow> block list" where
  "match_loop a b b2j [] matching_blocks = matching_blocks"
| "match_loop a b b2j ((alo, ahi, blo, bhi) # queue) matching_blocks =
     (case find_longest_match a b b2j alo ahi blo bhi of (i, j, k) \<Rightarrow>
        if k \<noteq> 0
        then match_loop a b b2j
               ((if i + k < ahi \<and> j + k < bhi then [(i + k, ahi, j + k, bhi)] else [])
                @ (if alo < i \<and> blo < j then [(alo, i, blo, j)] else []) @ queue)
               (matching_blocks @ [(i, j, k)])
        else match_loop a b b2j queue matching_blocks)"
  by pat_completeness auto
termination
proof (relation "measure (\<lambda>(a, b, b2j, queue, blocks). sum_list (map region_size queue))", goal_cases)
  case 1
  show ?case by simp
next
  case (2 a b b2j alo ahi blo bhi queue blocks x1 x2 x1a x2a)
  then have e: "find_longest_match a b b2j alo ahi blo bhi = (x1, x1a, x2a)" and k: "x2a \<noteq> 0"
    by simp_all
  from find_longest_match_bounds[OF e] k have "alo \<le> x1" "x1 + x2a \<le> ahi" by simp_all
  from region_decrease[OF this(1) k this(2)] show ?case by (simp only: in_measure prod.case)
next
  case 3
  then show ?case by (simp add: region_size_def)
qed

declare match_loop.simps [simp del]

fun collapse :: "block list \<Rightarrow> block \<Rightarrow> block list \<Rightarrow> block list" where
  "collapse [] (i1, j1, k1) non_adjacent =
     (if k1 \<noteq> 0 then non_adjacent @ [(i1, j1, k1)] else non_adjacent)"
| "collapse ((i2, j2, k2) # rest) (i1, j1, k1) non_adjacent =
     (if i1 + k1 = i2 \<and> j1 + k1 = j2 then collapse rest (i1, j1, k1 + k2) non_adjacent
      else collapse rest (i2, j2, k2)
             (if k1 \<noteq> 0 then non_adjacent @ [(i1, j1, k1)] else non_adjacent))"

definition get_matching_blocks :: "'a list \<Rightarrow> 'a list \<Rightarrow> block list" where
  "get_matching_blocks a b =
     (let la = length a; lb = length b;
          matching_blocks = sort (match_loop a b (chain_b b) [(0, la, 0, lb)] [])
      in collapse matching_blocks (0, 0, 0) [] @ [(la, lb, 0)])"

definition calculate_ratio :: "nat \<Rightarrow> nat \<Rightarrow> rat" where
  "calculate_ratio matches len = (if len \<noteq> 0 then 2 * of_nat matches / of_nat len else 1)"

definition ratio :: "'a list \<Rightarrow> 'a list \<Rightarrow> rat" where
  "ratio a b = calculate_ratio (sum_list (map (\<lambda>(i, j, k). k) (get_matching_blocks a b)))
                 (length a + length b)"

definition similarity :: "string \<Rightarrow> string \<Rightarrow> rat" where
  "similarity a b = (if a = [] \<and> b = [] then 1 else ratio a b)"


section \<open>Resolving and clustering person names (tools/extractPDFdata.py)\<close>

text \<open>
  A record of the people index has an identifier and a list of aliases (\<open>person["id"]\<close>,
  \<open>person["names"]\<close>). \<open>canonicalize_person\<close> keeps the best score seen so far and the
  record it belongs to (\<open>scan_names\<close> is the inner loop over the aliases, \<open>scan_people\<close>
  the outer loop over the index); a record of the index is a non-empty dictionary, so
  the test \<open>if best_match\<close> asks whether a record was found. The built-in \<open>round\<close> that
  produces the reported confidence works on the binary value of a double; it is taken
  as the parameter \<open>rnd\<close>.

  \<open>cluster_people\<close> keeps the clusters as a list of lists. \<open>place_name\<close> is the inner loop
  with its \<open>break\<close>: it returns the updated clusters when the name was placed, \<open>None\<close>
  when no cluster accepted it, and \<open>IndexError\<close> where \<open>cluster[0]\<close> would read an empty
  cluster.
\<close>

definition score_person :: "string \<Rightarrow> string \<Rightarrow> rat" where
  "score_person candidate known_name = ratio candidate known_name"

record person =
  person_id :: string
  names :: "string list"

record resolution =
  res_id :: "string option"
  confidence :: rat
  matchedName :: string

fun scan_names :: "string \<Rightarrow> person \<Rightarrow> string list \<Rightarrow> person option \<times> rat
    \<Rightarrow> person option \<times> rat" where
  "scan_names norm' p [] st = st"
| "scan_names norm' p (known # rest) (best_match, best_score) =
     (let score = score_person norm' known
      in if score > best_score then scan_names norm' p rest (Some p, score)
         else scan_names norm' p rest (best_match, best_score))"

fun scan_people :: "string \<Rightarrow> person list \<Rightarrow> person option \<times> rat \<Rightarrow> person option \<times> rat" where
  "scan_people norm' [] st = st"
| "scan_people norm' (p # rest) st = scan_people norm' rest (scan_names norm' p (names p) st)"

definition canonicalize_person :: "(rat \<Rightarrow> rat) \<Rightarrow> string \<Rightarrow> person list \<Rightarrow> rat \<Rightarrow> resolution" where
  "canonicalize_person rnd name people_index threshold =
     (let norm' = normalize_text (strip_middle_initial name)
      in case scan_people norm' people_index (None, 0) of
           (Some best_match, best_score) \<Rightarrow>
             if best_score \<ge> threshold
             then \<lparr>res_id = Some (person_id best_match), confidence = rnd best_score,
                   matchedName = name\<rparr>
             else \<lparr>res_id = None, confidence = rnd best_score, matchedName = name\<rparr>
         | (None, best_score) \<Rightarrow>
             \<lparr>res_id = None, confidence = rnd best_score, matchedName = name\<rparr>)"

datatype py_error = OSError string | IndexError

fun place_name :: "string \<Rightarrow> string list list \<Rightarrow> py_error + string list list option" where
  "place_name name [] = Inr None"
| "place_name name (cluster # rest) =
     (case cluster of
        [] \<Rightarrow> Inl IndexError
      | first # _ \<Rightarrow>
          if score_person name first > 85 / 100 then Inr (Some ((cluster @ [name]) # rest))
          else (case place_name name rest of
                  Inl e \<Rightarrow> Inl e
                | Inr None \<Rightarrow> Inr None
                | Inr (Some rest') \<Rightarrow> Inr (Some (cluster # rest'))))"

fun cluster_loop :: "string list \<Rightarrow> string list list \<Rightarrow> py_error + string list list" where
  "cluster_loop [] clusters = Inr clusters"
| "cluster_loop (name # rest) clusters =
     (case place_name name clusters of
        Inl e \<Rightarrow> Inl e
      | Inr (Some clusters') \<Rightarrow> cluster_loop rest clusters'
      | Inr None \<Rightarrow> cluster_loop rest (clusters @ [[name]]))"

definition cluster_people :: "string list \<Rightarrow> py_error + string list list" where
  "cluster_people unresolved = cluster_loop unresolved []"

text \<open>
  The clustering rule in the words of the specification, for comparison with the loops
  above: a name joins the first existing cluster whose first member's score is accepted,
  and starts a new cluster otherwise. The acceptance test is the parameter \<open>accept\<close>.
\<close>

definition spec_join :: "(rat \<Rightarrow> bool) \<Rightarrow> string list list \<Rightarrow> string \<Rightarrow> string list list" where
  "spec_join accept clusters name =
     (case find (\<lambda>i. accept (score_person name (hd (clusters ! i)))) [0..<length clusters] of
        None \<Rightarrow> clusters @ [[name]]
      | Some i \<Rightarrow> clusters[i := clusters ! i @ [name]])"

definition all_scores :: "string \<Rightarrow> person list \<Rightarrow> rat list" where
  "all_scores norm' people_index =
     concat (map (\<lambda>p. map (score_person norm') (names p)) people_index)"


section \<open>IEEE doubles\<close>

text \<open>
  A Python \<open>float\<close> is an IEEE 754 binary64 number. A finite double is modelled by its
  exact value, a rational number; \<open>round_double x\<close> is the double nearest to the rational
  \<open>x\<close> (ties to the even significand, 53 significant bits, gradual underflow below
  \<open>2 ^ -1022\<close>), which is what a correctly rounded operation returns when its exact
  result is \<open>x\<close>. \<open>floor_log2 x\<close> is the exponent of a positive rational and \<open>round_half_even\<close>
  rounds a rational to the nearest integer, ties to even. A \<open>pyfloat\<close> is any value of
  the type: a finite double, an infinity or a NaN; \<open>float_ge x t\<close> is \<open>x >= t\<close> for a
  finite \<open>x\<close>, and \<open>float_le\<close> is \<open><=\<close> (every comparison with a NaN is false).
\<close>

definition pow2 :: "int \<Rightarrow> rat" where
  "pow2 k = (if k \<ge> 0 then 2 ^ nat k else 1 / 2 ^ nat (- k))"

definition floor_log2 :: "rat \<Rightarrow> int" where
  "floor_log2 x =
     (let (p, q) = quotient_of x;
          e0 = int (floorlog 2 (nat p)) - int (floorlog 2 (nat q))
      in if pow2 e0 \<le> x then e0 else e0 - 1)"

definition round_half_even :: "rat \<Rightarrow> int" where
  "round_half_even x =
     (let f = \<lfloor>x\<rfloor>; d = x - of_int f
      in if d < 1 / 2 then f else if d > 1 / 2 then f + 1 else if even f then f else f + 1)"

definition round_double :: "rat \<Rightarrow> rat" where
  "round_double x =
     (if x = 0 then 0
      else let a = \<bar>x\<bar>;
               ulp = pow2 (max (floor_log2 a) (- 1022) - 52);
               r = of_int (round_half_even (a / ulp)) * ulp
           in if x < 0 then - r else r)"

datatype pyfloat = Finite rat | PInf | NInf | NaN

fun float_ge :: "rat \<Rightarrow> pyfloat \<Rightarrow> bool" where
  "float_ge x (Finite t) = (t \<le> x)"
| "float_ge x PInf = False"
| "float_ge x NInf = True"
| "float_ge x NaN = False"

fun float_le :: "pyfloat \<Rightarrow> pyfloat \<Rightarrow> bool" where
  "float_le NaN t = False"
| "float_le s NaN = False"
| "float_le NInf t = True"
| "float_le s PInf = True"
| "float_le (Finite a) (Finite b) = (a \<le> b)"
| "float_le PInf t = False"
| "float_le s NInf = False"


section \<open>Building the duplicate report (tools/extractPDFdata.py)\<close>

text \<open>
  The collaborators of \<open>build_report\<close> that are not code of the repository are the fields
  of an environment:
  \<^item> \<open>pdf_reader_available\<close>: the import of \<open>PdfReader\<close> succeeded;
  \<^item> \<open>stat_size\<close>: \<open>p.stat().st_size\<close>, \<open>None\<close> where it raises;
  \<^item> \<open>file_bytes\<close>: the content \<open>sha256_file\<close> reads, \<open>None\<close> where opening or reading the
    file raises (a missing or unreadable file);
  \<^item> \<open>sha256_hexdigest\<close>: the SHA-256 digest of a byte string, in hexadecimal;
  \<^item> \<open>pdf_pages\<close>: the pages of \<open>PdfReader(path)\<close>, each with the result of its
    \<open>extract_text()\<close> (\<open>None\<close> where that raises or returns nothing), and \<open>None\<close> where the
    reader itself raises;
  \<^item> \<open>minhash_new\<close>: the hash values of a fresh \<open>MinHash(num_perm)\<close>, or the exception its
    constructor raises for this number of permutations; \<open>minhash_update\<close>: the hash values
    after \<open>update\<close> with one more byte string;
  \<^item> \<open>lsh_new\<close>: the exception the constructor \<open>MinHashLSH(threshold, num_perm)\<close> raises for
    these parameters, if it raises;
  \<^item> \<open>lsh_query\<close>: the keys \<open>query\<close> returns for a signature, given the list of (key,
    signature) pairs inserted before.
  A file is a \<open>pathlib.Path\<close>, of which the source reads \<open>str(p)\<close> and \<open>p.name\<close>. The
  thresholds are Python floats and \<open>min_pages\<close> and \<open>num_perm\<close> are Python integers.

  The source creates one dictionary per file in a first loop (path, name, size and
  placeholders) and fills in hash, page count, text and signature in a second loop,
  before anything reads them. \<open>basic_metadata\<close> is the first loop; \<open>scan_items\<close> is the
  second and stops at the first exception, which only \<open>sha256_file\<close> can raise: every
  second and stops at the first exception: \<open>sha256_file\<close> raises for a file it cannot
  open or read, and the constructor in \<open>build_minhash\<close> may raise; every other call of the
  loop body is inside a \<open>try\<close> of its own. \<open>sha256_file\<close> feeds the file to the digest in
  chunks, which hashes the whole content.

  \<open>similarity_double\<close> is the double \<open>similarity\<close> returns: 1.0, or \<open>2.0 * matches / length\<close>,
  a correctly rounded division of two integers. The loop over the remaining files
  inserts every file into the index under its path before the first query; the paths of
  the remaining files are distinct (\<open>remaining_distinct\<close> below), so the duplicate-key check
  of \<open>insert\<close> does not fire and \<open>minhashes[key]\<close> is the signature of the file itself.
  \<open>a is b\<close> compares two members of \<open>final_group\<close>, which are distinct objects at distinct
  positions, so the model compares positions.
\<close>

datatype scan_error = FileError string | ValueError string

record path =
  p_str :: string
  p_name :: string

record env =
  pdf_reader_available :: bool
  stat_size :: "string \<Rightarrow> nat option"
  file_bytes :: "string \<Rightarrow> string option"
  sha256_hexdigest :: "string \<Rightarrow> string"
  pdf_pages :: "string \<Rightarrow> string option list option"
  minhash_new :: "int \<Rightarrow> scan_error + nat list"
  minhash_update :: "nat list \<Rightarrow> string \<Rightarrow> nat list"
  lsh_new :: "pyfloat \<Rightarrow> int \<Rightarrow> scan_error option"
  lsh_query :: "pyfloat \<Rightarrow> int \<Rightarrow> (string \<times> nat list) list \<Rightarrow> nat list \<Rightarrow> string list"

record file_meta =
  fm_path :: string
  fm_name :: string
  fm_size :: nat

record item =
  it_path :: string
  it_name :: string
  it_size :: nat
  it_sha256 :: string
  it_text :: string
  it_pages :: "nat option"
  it_minhash :: "nat list"

record file_entry =
  f_path :: string
  f_size :: nat
  f_text :: string
  f_sha256 :: string
  f_pages :: "nat option"
  f_minhash :: "nat list"

datatype group_type = Exact | Near | Partial

record dup_group =
  g_type :: group_type
  g_sha256 :: "string option"
  g_files :: "file_entry list"

record summary =
  total_files :: nat
  scanned :: nat
  exact_groups :: nat
  near_groups :: nat
  partial_groups :: nat
  singletons :: nat

record report =
  r_summary :: summary
  r_groups :: "dup_group list"
  r_singletons :: "file_entry list"

fun join :: "string \<Rightarrow> string list \<Rightarrow> string" where
  "join sep [] = []"
| "join sep [w] = w"
| "join sep (w # v # ws) = w @ sep @ join sep (v # ws)"

definition sha256_file :: "env \<Rightarrow> string \<Rightarrow> scan_error + string" where
  "sha256_file e p =
     (case file_bytes e p of
        None \<Rightarrow> Inl (FileError p)
      | Some content \<Rightarrow> Inr (sha256_hexdigest e content))"

definition extract_text_from_pdf :: "env \<Rightarrow> string \<Rightarrow> string" where
  "extract_text_from_pdf e p =
     (if \<not> pdf_reader_available e then []
      else case pdf_pages e p of
             None \<Rightarrow> []
           | Some pages \<Rightarrow>
               join [CHR 0x0A] (map (\<lambda>txt. case txt of None \<Rightarrow> [] | Some t \<Rightarrow> t) pages))"

definition text_to_shingles :: "string \<Rightarrow> nat \<Rightarrow> string list" where
  "text_to_shingles txt k =
     (let words = split_ws txt
      in if length words < k then (if words \<noteq> [] then [join '' '' words] else [])
         else map (\<lambda>i. join '' '' (take k (drop i words))) [0..<length words - k + 1])"

definition build_minhash :: "env \<Rightarrow> string \<Rightarrow> int \<Rightarrow> scan_error + nat list" where
  "build_minhash e txt num_perm =
     (case minhash_new e num_perm of
        Inl err \<Rightarrow> Inl err
      | Inr m \<Rightarrow>
          (let shingles = text_to_shingles txt 3
           in if shingles = [] then Inr (minhash_update e m [])
              else Inr (foldl (minhash_update e) m shingles)))"

definition basic_metadata :: "env \<Rightarrow> path list \<Rightarrow> file_meta list" where
  "basic_metadata e files =
     map (\<lambda>p. \<lparr>fm_path = p_str p, fm_name = p_name p,
               fm_size = (case stat_size e (p_str p) of None \<Rightarrow> 0 | Some n \<Rightarrow> n)\<rparr>) files"

definition page_count :: "env \<Rightarrow> string \<Rightarrow> nat option" where
  "page_count e p =
     (if pdf_reader_available e
      then (case pdf_pages e p of None \<Rightarrow> None | Some pages \<Rightarrow> Some (length pages))
      else None)"

fun scan_items :: "env \<Rightarrow> int \<Rightarrow> file_meta list \<Rightarrow> scan_error + item list" where
  "scan_items e num_perm [] = Inr []"
| "scan_items e num_perm (it # rest) =
     (case sha256_file e (fm_path it) of
        Inl err \<Rightarrow> Inl err
      | Inr sha \<Rightarrow>
          (let txt = extract_text_from_pdf e (fm_path it)
           in case build_minhash e txt num_perm of
                Inl err \<Rightarrow> Inl err
              | Inr signature \<Rightarrow>
                  (case scan_items e num_perm rest of
                     Inl err \<Rightarrow> Inl err
                   | Inr items \<Rightarrow>
                       Inr (\<lparr>it_path = fm_path it, it_name = fm_name it, it_size = fm_size it,
                             it_sha256 = sha, it_text = normalize_text txt,
                             it_pages = page_count e (fm_path it),
                             it_minhash = signature\<rparr> # items))))"

definition filter_min_pages :: "int \<Rightarrow> item list \<Rightarrow> item list" where
  "filter_min_pages min_pages items =
     (if min_pages > 0
      then filter (\<lambda>i. int (case it_pages i of None \<Rightarrow> 0 | Some n \<Rightarrow> n) \<ge> min_pages) items
      else items)"

definition entry_of :: "item \<Rightarrow> file_entry" where
  "entry_of g =
     \<lparr>f_path = it_path g, f_size = it_size g, f_text = it_text g, f_sha256 = it_sha256 g,
      f_pages = it_pages g, f_minhash = it_minhash g\<rparr>"

definition build_sha_map :: "item list \<Rightarrow> (string, item list) dict" where
  "build_sha_map items =
     foldl (\<lambda>sha_map it. dict_set sha_map (it_sha256 it) (dict_get sha_map (it_sha256 it) [] @ [it]))
       [] items"

definition exact_of :: "(string, item list) dict \<Rightarrow> (string \<times> item list) list" where
  "exact_of sha_map = filter (\<lambda>(sha, grp). length grp > 1) sha_map"

definition exact_group :: "string \<times> item list \<Rightarrow> dup_group" where
  "exact_group sg = \<lparr>g_type = Exact, g_sha256 = Some (fst sg), g_files = map entry_of (snd sg)\<rparr>"

definition similarity_double :: "string \<Rightarrow> string \<Rightarrow> rat" where
  "similarity_double a b = round_double (similarity a b)"

definition final_group_of :: "pyfloat \<Rightarrow> item list \<Rightarrow> item list" where
  "final_group_of partial_thresh group_items =
     (case group_items of
        [] \<Rightarrow> []
      | anchor # rest \<Rightarrow>
          anchor # filter (\<lambda>cand. float_ge (similarity_double (it_text anchor) (it_text cand))
                                    partial_thresh) rest)"

definition max_sim_of :: "item list \<Rightarrow> rat" where
  "max_sim_of final_group =
     foldl (\<lambda>max_sim a.
              foldl (\<lambda>max_sim b.
                       if a = b then max_sim
                       else max max_sim (similarity_double (it_text (final_group ! a))
                                                           (it_text (final_group ! b))))
                max_sim [0..<length final_group])
       0 [0..<length final_group]"

definition candidate_step ::
  "env \<Rightarrow> pyfloat \<Rightarrow> int \<Rightarrow> pyfloat \<Rightarrow> pyfloat \<Rightarrow> item list
    \<Rightarrow> dup_group list \<times> string set \<Rightarrow> item \<Rightarrow> dup_group list \<times> string set" where
  "candidate_step e lsh_threshold num_perm near_thresh partial_thresh remaining st it =
     (case st of (groups, used_in_group) \<Rightarrow>
        let key = it_path it
        in if key \<in> used_in_group then (groups, used_in_group)
           else
             let found = lsh_query e lsh_threshold num_perm
                           (map (\<lambda>x. (it_path x, it_minhash x)) remaining) (it_minhash it);
                 candidates = (if key \<in> set found then found else found @ [key]);
                 group_items = filter (\<lambda>x. it_path x \<in> set candidates
                                            \<and> it_path x \<notin> used_in_group) remaining
             in if length group_items \<le> 1 then (groups, used_in_group)
                else
                  let final_group = final_group_of partial_thresh group_items
                  in if length final_group > 1
                     then
                       let max_sim = max_sim_of final_group;
                           gtype = (if float_ge max_sim near_thresh then Near else Partial)
                       in (groups @ [\<lparr>g_type = gtype, g_sha256 = None,
                                       g_files = map entry_of final_group\<rparr>],
                           used_in_group \<union> set (map it_path final_group))
                     else (groups, used_in_group))"

definition build_report ::
  "env \<Rightarrow> path list \<Rightarrow> pyfloat \<Rightarrow> pyfloat \<Rightarrow> int \<Rightarrow> pyfloat \<Rightarrow> int \<Rightarrow> scan_error + report" where
  "build_report e files near_thresh partial_thresh min_pages lsh_threshold num_perm =
     (case scan_items e num_perm (basic_metadata e files) of
        Inl err \<Rightarrow> Inl err
      | Inr scanned_items \<Rightarrow>
          let items = filter_min_pages min_pages scanned_items;
              exact = exact_of (build_sha_map items);
              seen = set (concat (map (\<lambda>sg. map it_path (snd sg)) exact));
              remaining = filter (\<lambda>it. it_path it \<notin> seen) items
          in case lsh_new e lsh_threshold num_perm of
               Some err \<Rightarrow> Inl err
             | None \<Rightarrow>
                 let (groups, used_in_group) =
                       foldl (candidate_step e lsh_threshold num_perm near_thresh partial_thresh
                                remaining)
                         (map exact_group exact, {}) remaining;
                     singles = filter (\<lambda>it. it_path it \<notin> seen \<and> it_path it \<notin> used_in_group) items
                 in Inr \<lparr>r_summary =
                           \<lparr>total_files = length files, scanned = length items,
                            exact_groups = length (filter (\<lambda>g. g_type g = Exact) groups),
                            near_groups = length (filter (\<lambda>g. g_type g = Near) groups),
                            partial_groups = length (filter (\<lambda>g. g_type g = Partial) groups),
                            singletons = length singles\<rparr>,
                         r_groups = groups,
                         r_singletons = map entry_of singles\<rparr>)"

text \<open>Readings of a report used to state its properties.\<close>

definition group_paths :: "dup_group \<Rightarrow> string list" where
  "group_paths g = map f_path (g_files g)"

definition report_entries :: "report \<Rightarrow> file_entry list" where
  "report_entries r = concat (map g_files (r_groups r)) @ r_singletons r"

fun disjoint_lists :: "'a list list \<Rightarrow> bool" where
  "disjoint_lists [] = True"
| "disjoint_lists (xs # rest) =
     (list_all (\<lambda>ys. list_all (\<lambda>x. x \<notin> set ys) xs) rest \<and> disjoint_lists rest)"

definition signature_of :: "env \<Rightarrow> int \<Rightarrow> string \<Rightarrow> scan_error + nat list" where
  "signature_of e num_perm p = build_minhash e (extract_text_from_pdf e p) num_perm"

definition passes_min_pages :: "env \<Rightarrow> int \<Rightarrow> string \<Rightarrow> bool" where
  "passes_min_pages e min_pages p =
     (min_pages \<le> 0 \<or> min_pages \<le> int (case page_count e p of None \<Rightarrow> 0 | Some n \<Rightarrow> n))"



subsection \<open>An example run\<close>

text \<open>
  A small environment for the witnesses: \<open>a.pdf\<close> and \<open>b.pdf\<close> have the same bytes,
  \<open>c.pdf\<close> and \<open>d.pdf\<close> differ in one character of ten, \<open>e.pdf\<close> is unrelated, and no
  other file exists. The candidate index of the example returns every inserted key.
\<close>

definition ex_bytes :: "string \<Rightarrow> string option" where
  "ex_bytes p =
     (if p = ''a.pdf'' \<or> p = ''b.pdf'' then Some ''same''
      else if p = ''c.pdf'' then Some ''abcdefghij''
      else if p = ''d.pdf'' then Some ''abcdefghix''
      else if p = ''e.pdf'' then Some ''zzzz''
      else None)"

definition ex_env :: env where
  "ex_env =
     \<lparr>pdf_reader_available = True,
      stat_size = (\<lambda>p. map_option length (ex_bytes p)),
      file_bytes = ex_bytes,
      sha256_hexdigest = (\<lambda>content. content),
      pdf_pages = (\<lambda>p. map_option (\<lambda>content. [Some content]) (ex_bytes p)),
      minhash_new = (\<lambda>num_perm. if num_perm < 0 then Inl (ValueError ''num_perm'')
                                else Inr (replicate (nat num_perm) 0)),
      minhash_update = (\<lambda>hashvalues content. map (\<lambda>h. h + length content + 1) hashvalues),
      lsh_new = (\<lambda>threshold num_perm. if num_perm < 2 then Some (ValueError ''num_perm'') else None),
      lsh_query = (\<lambda>threshold num_perm inserted signature. map fst inserted)\<rparr>"

definition ex_path :: "string \<Rightarrow> path" where
  "ex_path p = \<lparr>p_str = p, p_name = p\<rparr>"

definition ex_files :: "path list" where
  "ex_files = map ex_path [''a.pdf'', ''b.pdf'', ''c.pdf'', ''d.pdf'', ''e.pdf'']"


definition ex_item :: "string \<Rightarrow> string \<Rightarrow> item" where
  "ex_item p txt =
     \<lparr>it_path = p, it_name = p, it_size = length txt, it_sha256 = txt, it_text = txt,
      it_pages = Some 1, it_minhash = [0, 0]\<rparr>"

definition ex_candidates :: "item list" where
  "ex_candidates =
     [ex_item ''c.pdf'' ''abcdefghij'', ex_item ''d.pdf'' ''abcdefghix'',
      ex_item ''f.pdf'' ''abcdefxxxx'']"

definition ex_report :: report where
  "ex_report =
     \<lparr>r_summary =
        \<lparr>total_files = 5, scanned = 5, exact_groups = 1, near_groups = 1,
         partial_groups = 0, singletons = 1\<rparr>,
      r_groups =
        [\<lparr>g_type = Exact, g_sha256 = Some ''same'',
           g_files =
             [\<lparr>f_path = ''a.pdf'', f_size = 4, f_text = ''same'', f_sha256 = ''same'',
                f_pages = Some 1, f_minhash = [5, 5]\<rparr>,
              \<lparr>f_path = ''b.pdf'', f_size = 4, f_text = ''same'', f_sha256 = ''same'',
                f_pages = Some 1, f_minhash = [5, 5]\<rparr>]\<rparr>,
         \<lparr>g_type = Near, g_sha256 = None,
           g_files =
             [\<lparr>f_path = ''c.pdf'', f_size = 10, f_text = ''abcdefghij'',
                f_sha256 = ''abcdefghij'', f_pages = Some 1, f_minhash = [11, 11]\<rparr>,
              \<lparr>f_path = ''d.pdf'', f_size = 10, f_text = ''abcdefghix'',
                f_sha256 = ''abcdefghix'', f_pages = Some 1, f_minhash = [11, 11]\<rparr>]\<rparr>],
      r_singletons =
        [\<lparr>f_path = ''e.pdf'', f_size = 4, f_text = ''zzzz'', f_sha256 = ''zzzz'',
           f_pages = Some 1, f_minhash = [5, 5]\<rparr>]\<rparr>"

definition ws_ok :: "string \<Rightarrow> bool" where
  "ws_ok s = ((\<forall>c \<in> set s. isspace c \<longrightarrow> c = CHR '' '') \<and>
     successively (\<lambda>a b. \<not> (isspace a \<and> isspace b)) s)"

definition join_ok :: "string \<Rightarrow> bool" where
  "join_ok s = successively (\<lambda>a b. \<not> (islower_az a \<and> isupper_AZ b)) s"

lemma isspace_sp: "isspace (CHR '' '')" by (simp add: isspace_def)
lemma isspace_nl: "isspace (CHR 0x0A)" by (simp add: isspace_def)
lemma lower_not_space: "islower_az c \<Longrightarrow> \<not> isspace c"
  by (auto simp: islower_az_def isspace_def Let_def)
lemma upper_not_space: "isupper_AZ c \<Longrightarrow> \<not> isspace c"
  by (auto simp: isupper_AZ_def isspace_def Let_def)
lemma upper_not_lower: "isupper_AZ c \<Longrightarrow> \<not> islower_az c"
  by (auto simp: isupper_AZ_def islower_az_def)

lemma sub_ws_set: "c \<in> set (sub_ws s) \<Longrightarrow> isspace c \<Longrightarrow> c = CHR '' ''"
  by (induction s rule: sub_ws.induct) (auto split: if_splits)

lemma sub_ws_hd: "sub_ws s \<noteq> [] \<Longrightarrow> s \<noteq> [] \<and> (isspace (hd (sub_ws s)) \<longleftrightarrow> isspace (hd s))"
  by (cases s) (auto simp: isspace_sp)

lemma sub_ws_succ: "successively (\<lambda>a b. \<not> (isspace a \<and> isspace b)) (sub_ws s)"
proof (induction s rule: sub_ws.induct)
  case 1 show ?case by simp
next
  case (2 c cs)
  show ?case
  proof (cases "isspace c")
    case True
    have "sub_ws (dropWhile isspace cs) \<noteq> [] \<Longrightarrow> \<not> isspace (hd (sub_ws (dropWhile isspace cs)))"
      using sub_ws_hd[of "dropWhile isspace cs"] hd_dropWhile[of isspace cs] by auto
    with True 2 show ?thesis by (auto simp: successively_Cons)
  next
    case False
    with 2 show ?thesis by (auto simp: successively_Cons)
  qed
qed

lemma ws_ok_sub_ws: "ws_ok (sub_ws s)"
  using sub_ws_set sub_ws_succ by (auto simp: ws_ok_def)

lemma sub_ws_id: "ws_ok s \<Longrightarrow> sub_ws s = s"
proof (induction s rule: sub_ws.induct)
  case 1 show ?case by simp
next
  case (2 c cs)
  show ?case
  proof (cases "isspace c")
    case True
    from 2(3) True have c: "c = CHR '' ''" by (simp add: ws_ok_def)
    from 2(3) True have "cs = [] \<or> \<not> isspace (hd cs)"
      by (auto simp: ws_ok_def successively_Cons)
    then have d: "dropWhile isspace cs = cs" by (cases cs) auto
    from 2(3) have "ws_ok cs" by (auto simp: ws_ok_def successively_Cons)
    with 2(1) True d c show ?thesis by simp
  next
    case False
    from 2(3) have "ws_ok cs" by (auto simp: ws_ok_def successively_Cons)
    with 2(2) False show ?thesis by simp
  qed
qed

lemma replace_nl_id: "ws_ok s \<Longrightarrow> replace_nl s = s"
  unfolding replace_nl_def ws_ok_def
  by (intro map_idI) (use isspace_nl in auto)


lemma sub_join_hd: "s \<noteq> [] \<Longrightarrow> sub_join s \<noteq> [] \<and> hd (sub_join s) = hd s"
  by (induction s rule: sub_join.induct) auto

lemma join_ok_sub_join: "join_ok (sub_join s)"
  unfolding join_ok_def
proof (induction s rule: sub_join.induct)
  case (1 a b cs)
  have sp: "\<not> islower_az (CHR '' '')" "\<not> isupper_AZ (CHR '' '')"
    by (simp_all add: islower_az_def isupper_AZ_def)
  show ?case
  proof (cases "islower_az a \<and> isupper_AZ b")
    case True
    with 1 sp sub_join_hd[of cs] show ?thesis
      by (cases "cs = []") (auto simp: successively_Cons upper_not_lower)
  next
    case False
    with 1 sub_join_hd[of "b # cs"] show ?thesis
      by (auto simp: successively_Cons)
  qed
qed auto

lemma sub_join_id: "join_ok s \<Longrightarrow> sub_join s = s"
  unfolding join_ok_def
  by (induction s rule: sub_join.induct) (auto simp: successively_Cons)

lemma sub_join_set: "set (sub_join s) \<subseteq> insert (CHR '' '') (set s)"
  by (induction s rule: sub_join.induct) auto

lemma ws_ok_sub_join: "ws_ok s \<Longrightarrow> ws_ok (sub_join s)"
proof (induction s rule: sub_join.induct)
  case (1 a b cs)
  show ?case
  proof (cases "islower_az a \<and> isupper_AZ b")
    case True
    from 1(3) have "ws_ok cs" by (auto simp: ws_ok_def successively_Cons)
    with 1(1) True have ih: "ws_ok (sub_join cs)" by simp
    from True have ab: "\<not> isspace a" "\<not> isspace b"
      by (auto simp: upper_not_space lower_not_space)
    with ih True show ?thesis
      by (auto simp: ws_ok_def successively_Cons)
  next
    case False
    from 1(3) have "ws_ok (b # cs)" by (auto simp: ws_ok_def successively_Cons)
    with 1(2) False have ih: "ws_ok (sub_join (b # cs))" by simp
    from 1(3) have "\<not> (isspace a \<and> isspace b)" "isspace a \<longrightarrow> a = CHR '' ''"
      by (auto simp: ws_ok_def successively_Cons)
    with ih False sub_join_hd[of "b # cs"] show ?thesis
      by (auto simp: ws_ok_def successively_Cons)
  qed
qed auto

lemma strip_decomp: "\<exists>l r. s = l @ strip s @ r"
proof -
  have "s = takeWhile isspace s @ dropWhile isspace s" by simp
  moreover have "rev (dropWhile isspace s) =
      takeWhile isspace (rev (dropWhile isspace s)) @ dropWhile isspace (rev (dropWhile isspace s))"
    by simp
  then have "dropWhile isspace s = strip s @ rev (takeWhile isspace (rev (dropWhile isspace s)))"
    unfolding strip_def by (metis rev_append rev_rev_ident)
  ultimately show ?thesis by metis
qed

lemma successively_mid: "successively P (l @ m @ r) \<Longrightarrow> successively P m"
  by (auto simp: successively_append_iff)

lemma ws_ok_strip: "ws_ok s \<Longrightarrow> ws_ok (strip s)"
proof -
  assume a: "ws_ok s"
  obtain l r where s: "s = l @ strip s @ r" using strip_decomp by blast
  from a have "\<forall>c \<in> set (l @ strip s @ r). isspace c \<longrightarrow> c = CHR '' ''"
    "successively (\<lambda>a b. \<not> (isspace a \<and> isspace b)) (l @ strip s @ r)"
    unfolding ws_ok_def using s by auto
  then show ?thesis unfolding ws_ok_def using successively_mid by auto
qed

lemma join_ok_strip: "join_ok s \<Longrightarrow> join_ok (strip s)"
proof -
  assume a: "join_ok s"
  obtain l r where s: "s = l @ strip s @ r" using strip_decomp by blast
  from a have "successively (\<lambda>a b. \<not> (islower_az a \<and> isupper_AZ b)) (l @ strip s @ r)"
    unfolding join_ok_def using s by auto
  then show ?thesis unfolding join_ok_def using successively_mid by blast
qed

lemma strip_ends: "strip s = [] \<or> (\<not> isspace (hd (strip s)) \<and> \<not> isspace (last (strip s)))"
proof (cases "strip s = []")
  case False
  let ?d = "dropWhile isspace s"
  let ?e = "dropWhile isspace (rev ?d)"
  from False have e: "?e \<noteq> []" by (simp add: strip_def)
  then have 1: "\<not> isspace (hd ?e)" using hd_dropWhile by blast
  from e have d: "?d \<noteq> []" by (cases "?d") auto
  then have 2: "\<not> isspace (hd ?d)" using hd_dropWhile by blast
  have "last (strip s) = hd ?e" using e by (simp add: strip_def last_rev)
  moreover have "hd (strip s) = last ?e" using e by (simp add: strip_def hd_rev)
  moreover have "last ?e = last (rev ?d)"
    using e by (metis append_is_Nil_conv last_appendR takeWhile_dropWhile_id)
  moreover have "last (rev ?d) = hd ?d" using d by (simp add: last_rev)
  ultimately show ?thesis using 1 2 by simp
qed simp

lemma strip_id: "s = [] \<or> (\<not> isspace (hd s) \<and> \<not> isspace (last s)) \<Longrightarrow> strip s = s"
proof (cases "s = []")
  case True then show ?thesis by (simp add: strip_def)
next
  case False
  assume "s = [] \<or> (\<not> isspace (hd s) \<and> \<not> isspace (last s))"
  with False have h: "\<not> isspace (hd s)" and l: "\<not> isspace (last s)" by auto
  from h False have 1: "dropWhile isspace s = s" by (cases s) auto
  from l False have "\<not> isspace (hd (rev s))" by (simp add: hd_rev)
  with False have 2: "dropWhile isspace (rev s) = rev s" by (cases "rev s") auto
  show ?thesis by (simp add: strip_def 1 2)
qed

definition block_size :: "block \<Rightarrow> nat" where
  "block_size x = (case x of (i, j, k) \<Rightarrow> k)"

definition region_cap :: "region \<Rightarrow> nat" where
  "region_cap r = (case r of (alo, ahi, blo, bhi) \<Rightarrow> min (ahi - alo) (bhi - blo))"

lemma match_loop_sum:
  "sum_list (map block_size (match_loop a b b2j queue blocks))
     \<le> sum_list (map block_size blocks) + sum_list (map region_cap queue)"
proof (induction a b b2j queue blocks rule: match_loop.induct)
  case (1 a b b2j blocks)
  show ?case by (simp add: match_loop.simps)
next
  case (2 a b b2j alo ahi blo bhi queue blocks)
  obtain i j k where e: "find_longest_match a b b2j alo ahi blo bhi = (i, j, k)"
    by (cases "find_longest_match a b b2j alo ahi blo bhi")
  note bnd = find_longest_match_bounds[OF e]
  show ?case
  proof (cases "k = 0")
    case True
    with 2(2)[OF e[symmetric] refl] e show ?thesis
      by (simp add: match_loop.simps)
  next
    case False
    let ?q = "(if i + k < ahi \<and> j + k < bhi then [(i + k, ahi, j + k, bhi)] else [])
                @ (if alo < i \<and> blo < j then [(alo, i, blo, j)] else []) @ queue"
    have cap: "k + sum_list (map region_cap ?q) \<le> sum_list (map region_cap ((alo, ahi, blo, bhi) # queue))"
      using bnd False by (auto simp: region_cap_def)
    from 2(1)[OF e[symmetric] refl False]
    have "sum_list (map block_size (match_loop a b b2j ?q (blocks @ [(i, j, k)])))
        \<le> sum_list (map block_size (blocks @ [(i, j, k)])) + sum_list (map region_cap ?q)" .
    also have "\<dots> = sum_list (map block_size blocks) + (k + sum_list (map region_cap ?q))"
      by (simp add: block_size_def)
    also have "\<dots> \<le> sum_list (map block_size blocks) + sum_list (map region_cap ((alo, ahi, blo, bhi) # queue))"
      using cap by simp
    finally show ?thesis using e False by (simp add: match_loop.simps)
  qed
qed

lemma collapse_sum:
  "sum_list (map block_size (collapse xs x acc))
     = sum_list (map block_size acc) + block_size x + sum_list (map block_size xs)"
  by (induction xs x acc rule: collapse.induct) (auto simp: block_size_def)

lemma insort_sum:
  "sum_list (map block_size (insort_key g x xs)) = block_size x + sum_list (map block_size xs)"
  by (induction xs) auto

lemma sort_sum: "sum_list (map block_size (sort_key g xs)) = sum_list (map block_size xs)"
  by (induction xs) (auto simp: insort_sum)

lemma matches_le:
  "sum_list (map (\<lambda>(i, j, k). k) (get_matching_blocks a b)) \<le> min (length a) (length b)"
proof -
  have f: "(\<lambda>(i, j, k). k) = block_size" by (auto simp: block_size_def)
  have "sum_list (map block_size (get_matching_blocks a b))
      = sum_list (map block_size (match_loop a b (chain_b b) [(0, length a, 0, length b)] []))"
    by (simp add: get_matching_blocks_def Let_def collapse_sum sort_sum block_size_def)
  also have "\<dots> \<le> min (length a) (length b)"
    using match_loop_sum[of a b "chain_b b" "[(0, length a, 0, length b)]" "[]"]
    by (simp add: region_cap_def)
  finally show ?thesis unfolding f .
qed

lemma ratio_bounds: "0 \<le> ratio a b \<and> ratio a b \<le> 1"
proof -
  let ?m = "sum_list (map (\<lambda>(i, j, k). k) (get_matching_blocks a b))"
  have "2 * ?m \<le> length a + length b" using matches_le[of a b] by simp
  then have "2 * (of_nat ?m :: rat) \<le> of_nat (length a + length b)"
    by (metis of_nat_le_iff of_nat_mult of_nat_numeral)
  then show ?thesis
    unfolding ratio_def calculate_ratio_def
    by (auto simp: divide_le_eq)
qed

lemma scan_names_snd:
  "snd (scan_names n p ks (bm, bs)) = foldl max bs (map (score_person n) ks)"
  by (induction ks arbitrary: bm bs) (auto simp: Let_def max_def)

lemma scan_names_fst:
  "fst (scan_names n p ks (bm, bs)) \<noteq> None \<longleftrightarrow>
     bm \<noteq> None \<or> (\<exists>k \<in> set ks. score_person n k > bs)"
  by (induction ks arbitrary: bm bs) (auto simp: Let_def)

lemma foldl_max_Max: "foldl max (b::rat) xs = Max (set (b # xs))"
proof (induction xs arbitrary: b)
  case Nil
  show ?case by simp
next
  case (Cons x xs)
  have "foldl max b (x # xs) = Max (set (max b x # xs))" using Cons by simp
  also have "\<dots> = Max (set (b # x # xs))"
    by (cases "xs = []") (auto simp: max.assoc max.commute)
  finally show ?case .
qed

lemma foldl_max_ge: "foldl max (b::rat) xs \<ge> b"
  by (simp add: foldl_max_Max)

lemma scan_people_snd:
  "snd (scan_people n idx (bm, bs)) = foldl max bs (all_scores n idx)"
proof (induction idx arbitrary: bm bs)
  case Nil
  show ?case by (simp add: all_scores_def)
next
  case (Cons p idx)
  obtain bm' bs' where e: "scan_names n p (names p) (bm, bs) = (bm', bs')"
    by (cases "scan_names n p (names p) (bm, bs)")
  then have "bs' = foldl max bs (map (score_person n) (names p))"
    using scan_names_snd[of n p "names p" bm bs] by simp
  with Cons[of bm' bs'] e show ?case by (simp add: all_scores_def)
qed

lemma scan_people_fst:
  "fst (scan_people n idx (bm, bs)) \<noteq> None \<longleftrightarrow>
     bm \<noteq> None \<or> (\<exists>s \<in> set (all_scores n idx). s > bs)"
proof (induction idx arbitrary: bm bs)
  case Nil
  show ?case by (simp add: all_scores_def)
next
  case (Cons p idx)
  obtain bm' bs' where e: "scan_names n p (names p) (bm, bs) = (bm', bs')"
    by (cases "scan_names n p (names p) (bm, bs)")
  have bs': "bs' = foldl max bs (map (score_person n) (names p))"
    using scan_names_snd[of n p "names p" bm bs] e by simp
  have bm': "bm' \<noteq> None \<longleftrightarrow> bm \<noteq> None \<or> (\<exists>k \<in> set (names p). score_person n k > bs)"
    using scan_names_fst[of n p "names p" bm bs] e by simp
  have ge: "bs \<le> bs'" using bs' foldl_max_ge by simp
  have mx: "bs' = Max (set (bs # map (score_person n) (names p)))"
    using bs' foldl_max_Max by simp
  have split: "all_scores n (p # idx) = map (score_person n) (names p) @ all_scores n idx"
    by (simp add: all_scores_def)
  have "fst (scan_people n (p # idx) (bm, bs)) \<noteq> None \<longleftrightarrow>
      bm' \<noteq> None \<or> (\<exists>s \<in> set (all_scores n idx). s > bs')"
    using Cons[of bm' bs'] e by simp
  also have "\<dots> \<longleftrightarrow> bm \<noteq> None \<or> (\<exists>s \<in> set (all_scores n (p # idx)). s > bs)"
  proof (cases "\<exists>k \<in> set (names p). score_person n k > bs")
    case True
    then show ?thesis using bm' split by auto
  next
    case False
    then have "\<forall>x \<in> set (bs # map (score_person n) (names p)). x \<le> bs" by auto
    then have "bs' \<le> bs" unfolding mx by (intro Max.boundedI) auto
    with ge have "bs' = bs" by simp
    with False bm' split show ?thesis by auto
  qed
  finally show ?case .
qed

lemma canonicalize_person_resolved:
  assumes "0 < threshold"
  shows "res_id (canonicalize_person rnd name idx threshold) \<noteq> None \<longleftrightarrow>
     (\<exists>s \<in> set (all_scores (normalize_text (strip_middle_initial name)) idx). s \<ge> threshold)"
proof -
  let ?n = "normalize_text (strip_middle_initial name)"
  obtain bm bs where e: "scan_people ?n idx (None, 0) = (bm, bs)"
    by (cases "scan_people ?n idx (None, 0)")
  have bs: "bs = Max (set (0 # all_scores ?n idx))"
    using scan_people_snd[of ?n idx None 0] e foldl_max_Max by simp
  have bm: "bm \<noteq> None \<longleftrightarrow> (\<exists>s \<in> set (all_scores ?n idx). s > 0)"
    using scan_people_fst[of ?n idx None 0] e by simp
  have ge: "bs \<ge> threshold \<longleftrightarrow> (\<exists>s \<in> set (all_scores ?n idx). s \<ge> threshold)"
    unfolding bs using assms by (subst Max_ge_iff) auto
  have "res_id (canonicalize_person rnd name idx threshold) \<noteq> None \<longleftrightarrow> bm \<noteq> None \<and> bs \<ge> threshold"
    using e by (cases bm) (simp_all add: canonicalize_person_def Let_def)
  also have "\<dots> \<longleftrightarrow> (\<exists>s \<in> set (all_scores ?n idx). s \<ge> threshold)"
    using bm ge assms by fastforce
  finally show ?thesis .
qed

lemma find_map_option: "find P (map f xs) = map_option f (find (\<lambda>x. P (f x)) xs)"
  by (induction xs) auto

lemma find_upt_Suc:
  "find P [0..<Suc n] = (if P 0 then Some 0 else map_option Suc (find (\<lambda>i. P (Suc i)) [0..<n]))"
proof -
  have "[0..<Suc n] = 0 # map Suc [0..<n]"
    by (simp add: upt_conv_Cons map_Suc_upt del: upt_Suc)
  then show ?thesis by (simp add: find_map_option del: upt_Suc)
qed

lemma place_name_find:
  assumes "\<forall>c \<in> set clusters. c \<noteq> []"
  shows "place_name name clusters =
     Inr (map_option (\<lambda>i. clusters[i := clusters ! i @ [name]])
           (find (\<lambda>i. score_person name (hd (clusters ! i)) > 85 / 100) [0..<length clusters]))"
  using assms
proof (induction clusters)
  case Nil
  show ?case by simp
next
  case (Cons c cs)
  then obtain x xs where c: "c = x # xs" by (cases c) auto
  show ?case
  proof (cases "score_person name x > 85 / 100")
    case True
    then show ?thesis using c by (simp add: find_upt_Suc del: upt_Suc)
  next
    case False
    have ih: "place_name name cs =
       Inr (map_option (\<lambda>i. cs[i := cs ! i @ [name]])
             (find (\<lambda>i. score_person name (hd (cs ! i)) > 85 / 100) [0..<length cs]))"
      using Cons by simp
    show ?thesis
      using False c ih
      by (cases "find (\<lambda>i. score_person name (hd (cs ! i)) > 85 / 100) [0..<length cs]")
         (simp_all add: find_upt_Suc del: upt_Suc)
  qed
qed

lemma place_name_spec_join:
  assumes "\<forall>c \<in> set clusters. c \<noteq> []"
  shows "(case place_name name clusters of
            Inl e \<Rightarrow> False
          | Inr None \<Rightarrow> spec_join (\<lambda>s. s > 85 / 100) clusters name = clusters @ [[name]]
          | Inr (Some cs') \<Rightarrow> spec_join (\<lambda>s. s > 85 / 100) clusters name = cs')"
  unfolding place_name_find[OF assms] spec_join_def
  by (simp split: option.splits)

lemma spec_join_nonempty:
  assumes "\<forall>c \<in> set clusters. c \<noteq> []"
  shows "\<forall>c \<in> set (spec_join accept clusters name). c \<noteq> []"
proof (cases "find (\<lambda>i. accept (score_person name (hd (clusters ! i)))) [0..<length clusters]")
  case None
  then show ?thesis using assms by (simp add: spec_join_def)
next
  case (Some i)
  have "c \<noteq> []" if "c \<in> set (clusters[i := clusters ! i @ [name]])" for c
    using that assms by (auto dest!: set_update_subset_insert[THEN subsetD])
  then show ?thesis using Some by (simp add: spec_join_def)
qed

lemma cluster_loop_spec:
  "\<forall>c \<in> set clusters. c \<noteq> [] \<Longrightarrow>
   cluster_loop unresolved clusters = Inr (foldl (spec_join (\<lambda>s. s > 85 / 100)) clusters unresolved)"
proof (induction unresolved arbitrary: clusters)
  case Nil
  show ?case by simp
next
  case (Cons name rest)
  let ?cs = "spec_join (\<lambda>s. s > 85 / 100) clusters name"
  have ne: "\<forall>c \<in> set ?cs. c \<noteq> []" using spec_join_nonempty[OF Cons.prems] .
  have "cluster_loop (name # rest) clusters = cluster_loop rest ?cs"
    using place_name_spec_join[OF Cons.prems, of name]
    by (auto split: sum.splits option.splits)
  with Cons.IH[OF ne] show ?case by simp
qed


section \<open>Lemmas about the report\<close>

subsection \<open>The scan\<close>

definition item_ok :: "env \<Rightarrow> int \<Rightarrow> item \<Rightarrow> bool" where
  "item_ok e num_perm it =
     (sha256_file e (it_path it) = Inr (it_sha256 it) \<and>
      it_text it = normalize_text (extract_text_from_pdf e (it_path it)) \<and>
      it_pages it = page_count e (it_path it) \<and>
      signature_of e num_perm (it_path it) = Inr (it_minhash it))"

lemma scan_items_ok:
  "scan_items e num_perm metas = Inr items \<Longrightarrow>
   map it_path items = map fm_path metas \<and> (\<forall>it \<in> set items. item_ok e num_perm it)"
proof (induction metas arbitrary: items)
  case Nil
  then show ?case by simp
next
  case (Cons m metas)
  from Cons.prems obtain sha signature rest where
    sha: "sha256_file e (fm_path m) = Inr sha" and
    sg: "build_minhash e (extract_text_from_pdf e (fm_path m)) num_perm = Inr signature" and
    rest: "scan_items e num_perm metas = Inr rest" and
    items: "items = \<lparr>it_path = fm_path m, it_name = fm_name m, it_size = fm_size m,
                  it_sha256 = sha, it_text = normalize_text (extract_text_from_pdf e (fm_path m)),
                  it_pages = page_count e (fm_path m), it_minhash = signature\<rparr> # rest"
    by (auto simp: Let_def split: sum.splits)
  from Cons.IH[OF rest] sha sg show ?case
    unfolding items by (simp add: item_ok_def signature_of_def)
qed

lemma scan_items_error:
  "m \<in> set metas \<Longrightarrow> file_bytes e (fm_path m) = None \<Longrightarrow>
   \<exists>err. scan_items e num_perm metas = Inl err"
proof (induction metas)
  case Nil
  then show ?case by simp
next
  case (Cons x metas)
  show ?case
  proof (cases "sha256_file e (fm_path x)")
    case (Inl err)
    then show ?thesis by simp
  next
    case (Inr sha)
    with Cons.prems have "m \<in> set metas" by (auto simp: sha256_file_def)
    with Cons obtain err where "scan_items e num_perm metas = Inl err" by blast
    with Inr show ?thesis by (simp add: Let_def split: sum.splits)
  qed
qed

lemma scan_items_returns:
  assumes "minhash_new e num_perm = Inr m0"
  shows "\<forall>m \<in> set metas. file_bytes e (fm_path m) \<noteq> None \<Longrightarrow>
   \<exists>items. scan_items e num_perm metas = Inr items"
proof (induction metas)
  case Nil
  show ?case by simp
next
  case (Cons x metas)
  then obtain items where "scan_items e num_perm metas = Inr items" by auto
  moreover from Cons.prems obtain c where "file_bytes e (fm_path x) = Some c" by auto
  moreover have "\<exists>sg. build_minhash e (extract_text_from_pdf e (fm_path x)) num_perm = Inr sg"
    using assms by (simp add: build_minhash_def Let_def)
  then obtain sg where
    "build_minhash e (extract_text_from_pdf e (fm_path x)) num_perm = Inr sg" by blast
  ultimately show ?case by (simp add: sha256_file_def Let_def)
qed

lemma item_ok_same_sha:
  "item_ok e n a \<Longrightarrow> item_ok e n b \<Longrightarrow> it_path a = it_path b \<Longrightarrow> it_sha256 a = it_sha256 b"
  by (simp add: item_ok_def)

subsection \<open>Disjoint lists\<close>

lemma disjoint_lists_append:
  "disjoint_lists (xss @ yss) \<longleftrightarrow>
     disjoint_lists xss \<and> disjoint_lists yss \<and>
     (\<forall>xs \<in> set xss. \<forall>ys \<in> set yss. set xs \<inter> set ys = {})"
  by (induction xss) (auto simp: list_all_iff)

lemma disjoint_lists_single: "disjoint_lists [xs]"
  by simp

lemma disjoint_lists_nth:
  "disjoint_lists xss \<longleftrightarrow>
     (\<forall>i < length xss. \<forall>j < length xss. i \<noteq> j \<longrightarrow> set (xss ! i) \<inter> set (xss ! j) = {})"
proof (induction xss)
  case Nil
  show ?case by simp
next
  case (Cons xs xss)
  have "(\<forall>i < length (xs # xss). \<forall>j < length (xs # xss). i \<noteq> j \<longrightarrow>
          set ((xs # xss) ! i) \<inter> set ((xs # xss) ! j) = {}) \<longleftrightarrow>
        (\<forall>ys \<in> set xss. set xs \<inter> set ys = {}) \<and>
        (\<forall>i < length xss. \<forall>j < length xss. i \<noteq> j \<longrightarrow> set (xss ! i) \<inter> set (xss ! j) = {})"
    (is "?L \<longleftrightarrow> ?A \<and> ?B")
  proof
    assume L: ?L
    have ?A
    proof
      fix ys assume "ys \<in> set xss"
      then obtain j where "j < length xss" "xss ! j = ys" by (auto simp: in_set_conv_nth)
      with L[rule_format, of 0 "Suc j"] show "set xs \<inter> set ys = {}" by simp
    qed
    moreover have ?B
    proof (intro allI impI)
      fix i j assume "i < length xss" "j < length xss" "i \<noteq> j"
      with L[rule_format, of "Suc i" "Suc j"] show "set (xss ! i) \<inter> set (xss ! j) = {}" by simp
    qed
    ultimately show "?A \<and> ?B" ..
  next
    assume AB: "?A \<and> ?B"
    show ?L
    proof (intro allI impI)
      fix i j assume ij: "i < length (xs # xss)" "j < length (xs # xss)" "i \<noteq> j"
      show "set ((xs # xss) ! i) \<inter> set ((xs # xss) ! j) = {}"
      proof (cases i)
        case 0
        with ij obtain j' where j': "j = Suc j'" "j' < length xss" by (cases j) auto
        then have "xss ! j' \<in> set xss" by simp
        with AB 0 j' show ?thesis by auto
      next
        case (Suc i')
        show ?thesis
        proof (cases j)
          case 0
          from Suc ij have "xss ! i' \<in> set xss" by simp
          with AB 0 Suc show ?thesis by auto
        next
          case (Suc j')
          with AB ij \<open>i = Suc i'\<close> show ?thesis by auto
        qed
      qed
    qed
  qed
  with Cons show ?case by (auto simp: list_all_iff)
qed



subsection \<open>Exact groups\<close>

definition sha_inv :: "(string, item list) dict \<Rightarrow> item list \<Rightarrow> bool" where
  "sha_inv m items =
     (distinct (map fst m) \<and>
      (\<forall>k. map_of m k = (if k \<in> it_sha256 ` set items
                          then Some (filter (\<lambda>i. it_sha256 i = k) items) else None)))"

lemma sha_inv_lookup:
  "sha_inv m items \<Longrightarrow>
   map_of m k = (if k \<in> it_sha256 ` set items
                 then Some (filter (\<lambda>i. it_sha256 i = k) items) else None)"
  unfolding sha_inv_def by blast

lemma sha_inv_distinct: "sha_inv m items \<Longrightarrow> distinct (map fst m)"
  unfolding sha_inv_def by blast

lemma sha_inv_step:
  assumes "sha_inv m items"
  shows "sha_inv (dict_set m (it_sha256 it) (dict_get m (it_sha256 it) [] @ [it])) (items @ [it])"
proof -
  let ?k = "it_sha256 it"
  let ?v = "dict_get m ?k [] @ [it]"
  have v: "?v = filter (\<lambda>i. it_sha256 i = ?k) (items @ [it])"
  proof (cases "?k \<in> it_sha256 ` set items")
    case True
    with sha_inv_lookup[OF assms, of ?k] show ?thesis by (simp add: dict_get_def)
  next
    case False
    then have "filter (\<lambda>i. it_sha256 i = ?k) items = []"
      unfolding filter_empty_conv by (metis imageI)
    moreover from False sha_inv_lookup[OF assms, of ?k] have "map_of m ?k = None" by simp
    ultimately show ?thesis by (simp add: dict_get_def)
  qed
  have d: "distinct (map fst (dict_set m ?k ?v))"
    using sha_inv_distinct[OF assms] by (simp add: dict_set_def distinct_update)
  have l: "map_of (dict_set m ?k ?v) k =
      (if k \<in> it_sha256 ` set (items @ [it])
       then Some (filter (\<lambda>i. it_sha256 i = k) (items @ [it])) else None)" for k
  proof (cases "k = ?k")
    case True
    then show ?thesis using v by (simp add: dict_set_def update_conv')
  next
    case False
    then have "map_of (dict_set m ?k ?v) k = map_of m k"
      by (simp add: dict_set_def update_conv')
    also have "\<dots> = (if k \<in> it_sha256 ` set items
                 then Some (filter (\<lambda>i. it_sha256 i = k) items) else None)"
      by (rule sha_inv_lookup[OF assms])
    also have "\<dots> = (if k \<in> it_sha256 ` set (items @ [it])
       then Some (filter (\<lambda>i. it_sha256 i = k) (items @ [it])) else None)"
      using False by auto
    finally show ?thesis .
  qed
  from d l show ?thesis unfolding sha_inv_def by blast
qed

lemma sha_inv_build: "sha_inv (build_sha_map items) items"
  unfolding build_sha_map_def
proof (induction items rule: rev_induct)
  case Nil
  show ?case by (simp add: sha_inv_def)
next
  case (snoc it items)
  then show ?case using sha_inv_step by simp
qed

lemma exact_of_members:
  assumes "(k, g) \<in> set (exact_of (build_sha_map items))"
  shows "g = filter (\<lambda>i. it_sha256 i = k) items \<and> 1 < length g"
proof -
  let ?m = "build_sha_map items"
  from assms have in_m: "(k, g) \<in> set ?m" and len: "1 < length g"
    by (auto simp: exact_of_def)
  from in_m sha_inv_distinct[OF sha_inv_build] have "map_of ?m k = Some g" by simp
  with sha_inv_lookup[OF sha_inv_build, of items k] have "g = filter (\<lambda>i. it_sha256 i = k) items"
    by (auto split: if_splits)
  with len show ?thesis by simp
qed

lemma exact_of_distinct: "distinct (map fst (exact_of (build_sha_map items)))"
  unfolding exact_of_def using sha_inv_distinct[OF sha_inv_build, of items]
  by (simp add: distinct_map_filter)

lemma keyed_disjoint:
  assumes "distinct (map fst al)"
    and "\<And>k g x. (k, g) \<in> set al \<Longrightarrow> x \<in> set g \<Longrightarrow> key x = k"
    and "\<And>k g k' g' x y. (k, g) \<in> set al \<Longrightarrow> (k', g') \<in> set al \<Longrightarrow> x \<in> set g \<Longrightarrow> y \<in> set g'
           \<Longrightarrow> f x = f y \<Longrightarrow> key x = key y"
  shows "disjoint_lists (map (\<lambda>sg. map f (snd sg)) al)"
  using assms
proof (induction al)
  case Nil
  show ?case by simp
next
  case (Cons a al)
  obtain k g where a: "a = (k, g)" by (cases a)
  have rest: "disjoint_lists (map (\<lambda>sg. map f (snd sg)) al)"
  proof (rule Cons.IH)
    show "distinct (map fst al)" using Cons.prems(1) by simp
    show "\<And>k g x. (k, g) \<in> set al \<Longrightarrow> x \<in> set g \<Longrightarrow> key x = k"
      using Cons.prems(2) by (meson list.set_intros(2))
    show "\<And>k g k' g' x y. (k, g) \<in> set al \<Longrightarrow> (k', g') \<in> set al \<Longrightarrow> x \<in> set g \<Longrightarrow> y \<in> set g'
           \<Longrightarrow> f x = f y \<Longrightarrow> key x = key y"
      using Cons.prems(3) by (meson list.set_intros(2))
  qed
  have "f x \<noteq> f y" if "x \<in> set g" "(k', g') \<in> set al" "y \<in> set g'" for x k' g' y
  proof
    assume eq: "f x = f y"
    have 1: "key x = k" using Cons.prems(2)[of k g x] a that(1) by simp
    have 2: "key y = k'" using Cons.prems(2)[of k' g' y] that(2,3) by simp
    have "key x = key y" using Cons.prems(3)[of k g k' g' x y] a that eq by simp
    with 1 2 have "k = k'" by simp
    moreover have "k \<notin> fst ` set al" using Cons.prems(1) a by simp
    ultimately show False using that(2) by force
  qed
  then have "list_all (\<lambda>ys. list_all (\<lambda>x. x \<notin> set ys) (map f g)) (map (\<lambda>sg. map f (snd sg)) al)"
    by (fastforce simp: list_all_iff)
  with rest a show ?case by simp
qed

lemma exact_disjoint:
  assumes "\<And>a b. a \<in> set items \<Longrightarrow> b \<in> set items \<Longrightarrow> it_path a = it_path b
             \<Longrightarrow> it_sha256 a = it_sha256 b"
  shows "disjoint_lists (map (\<lambda>sg. map it_path (snd sg)) (exact_of (build_sha_map items)))"
proof (rule keyed_disjoint[where key = it_sha256])
  show "distinct (map fst (exact_of (build_sha_map items)))" by (rule exact_of_distinct)
  show "\<And>k g x. (k, g) \<in> set (exact_of (build_sha_map items)) \<Longrightarrow> x \<in> set g \<Longrightarrow> it_sha256 x = k"
    using exact_of_members by fastforce
  show "\<And>k g k' g' x y. (k, g) \<in> set (exact_of (build_sha_map items)) \<Longrightarrow>
          (k', g') \<in> set (exact_of (build_sha_map items)) \<Longrightarrow> x \<in> set g \<Longrightarrow> y \<in> set g' \<Longrightarrow>
          it_path x = it_path y \<Longrightarrow> it_sha256 x = it_sha256 y"
  proof -
    fix k g k' g' x y
    assume "(k, g) \<in> set (exact_of (build_sha_map items))"
      "(k', g') \<in> set (exact_of (build_sha_map items))" "x \<in> set g" "y \<in> set g'"
      "it_path x = it_path y"
    moreover from this exact_of_members[of k g items] exact_of_members[of k' g' items]
    have "x \<in> set items" "y \<in> set items" by auto
    ultimately show "it_sha256 x = it_sha256 y" using assms by blast
  qed
qed



subsection \<open>Refinement and tier\<close>

lemma final_group_subset: "set (final_group_of t group_items) \<subseteq> set group_items"
  by (auto simp: final_group_of_def split: list.splits)

lemma group_paths_entry: "map f_path (map entry_of fg) = map it_path fg"
  by (simp add: entry_of_def comp_def)











subsection \<open>The candidate loop\<close>

definition near_ok :: "pyfloat \<Rightarrow> item list \<Rightarrow> string set \<Rightarrow> dup_group \<Rightarrow> bool" where
  "near_ok near_thresh remaining used g =
     (\<exists>fg. g_files g = map entry_of fg \<and> set fg \<subseteq> set remaining \<and> 2 \<le> length fg \<and>
           set (map it_path fg) \<subseteq> used \<and>
           g_type g = (if float_ge (max_sim_of fg) near_thresh then Near else Partial))"

definition near_inv ::
  "pyfloat \<Rightarrow> item list \<Rightarrow> dup_group list \<Rightarrow> dup_group list \<times> string set \<Rightarrow> bool" where
  "near_inv near_thresh remaining exactgs st =
     (\<exists>ngs. fst st = exactgs @ ngs \<and>
            snd st = \<Union> (set ` group_paths ` set ngs) \<and>
            disjoint_lists (map group_paths ngs) \<and>
            (\<forall>g \<in> set ngs. near_ok near_thresh remaining (snd st) g))"

lemma near_ok_mono: "near_ok t remaining used g \<Longrightarrow> used \<subseteq> used' \<Longrightarrow> near_ok t remaining used' g"
  unfolding near_ok_def by blast

lemma candidate_step_cases:
  "candidate_step e lsh_threshold num_perm near_thresh partial_thresh remaining (groups, used) it
     = (groups, used) \<or>
   (\<exists>fg. set fg \<subseteq> {x \<in> set remaining. it_path x \<notin> used} \<and> 2 \<le> length fg \<and>
      candidate_step e lsh_threshold num_perm near_thresh partial_thresh remaining (groups, used) it
        = (groups @ [\<lparr>g_type = (if float_ge (max_sim_of fg) near_thresh then Near else Partial),
                       g_sha256 = None, g_files = map entry_of fg\<rparr>],
           used \<union> set (map it_path fg)))"
proof -
  let ?found = "lsh_query e lsh_threshold num_perm
                  (map (\<lambda>x. (it_path x, it_minhash x)) remaining) (it_minhash it)"
  let ?cands = "if it_path it \<in> set ?found then ?found else ?found @ [it_path it]"
  let ?gi = "filter (\<lambda>x. it_path x \<in> set ?cands \<and> it_path x \<notin> used) remaining"
  let ?fg = "final_group_of partial_thresh ?gi"
  show ?thesis
  proof (cases "it_path it \<notin> used \<and> \<not> length ?gi \<le> 1 \<and> length ?fg > 1")
    case True
    have "set ?fg \<subseteq> set ?gi" by (rule final_group_subset)
    then have sub: "set ?fg \<subseteq> {x \<in> set remaining. it_path x \<notin> used}" by auto
    have "candidate_step e lsh_threshold num_perm near_thresh partial_thresh remaining (groups, used) it
        = (groups @ [\<lparr>g_type = (if float_ge (max_sim_of ?fg) near_thresh then Near else Partial),
                       g_sha256 = None, g_files = map entry_of ?fg\<rparr>],
           used \<union> set (map it_path ?fg))"
      using True unfolding candidate_step_def Let_def by simp
    with sub True show ?thesis by (intro disjI2 exI[of _ ?fg]) simp
  next
    case False
    then have "candidate_step e lsh_threshold num_perm near_thresh partial_thresh remaining (groups, used) it
        = (groups, used)"
      unfolding candidate_step_def Let_def by auto
    then show ?thesis ..
  qed
qed

lemma near_inv_step:
  assumes "near_inv near_thresh remaining exactgs st"
  shows "near_inv near_thresh remaining exactgs
           (candidate_step e lsh_threshold num_perm near_thresh partial_thresh remaining st it)"
proof -
  obtain groups used where st: "st = (groups, used)" by (cases st)
  from assms st obtain ngs where
    g: "groups = exactgs @ ngs" and
    u: "used = \<Union> (set ` group_paths ` set ngs)" and
    d: "disjoint_lists (map group_paths ngs)" and
    ok: "\<forall>g \<in> set ngs. near_ok near_thresh remaining used g"
    unfolding near_inv_def by auto
  from candidate_step_cases[of e lsh_threshold num_perm near_thresh partial_thresh remaining groups used it]
  show ?thesis
  proof
    assume "candidate_step e lsh_threshold num_perm near_thresh partial_thresh remaining (groups, used) it
        = (groups, used)"
    with assms st show ?thesis by simp
  next
    assume "\<exists>fg. set fg \<subseteq> {x \<in> set remaining. it_path x \<notin> used} \<and> 2 \<le> length fg \<and>
      candidate_step e lsh_threshold num_perm near_thresh partial_thresh remaining (groups, used) it
        = (groups @ [\<lparr>g_type = (if float_ge (max_sim_of fg) near_thresh then Near else Partial),
                       g_sha256 = None, g_files = map entry_of fg\<rparr>],
           used \<union> set (map it_path fg))"
    then obtain fg where
      sub: "set fg \<subseteq> {x \<in> set remaining. it_path x \<notin> used}" and
      len: "2 \<le> length fg" and
      step: "candidate_step e lsh_threshold num_perm near_thresh partial_thresh remaining (groups, used) it
        = (groups @ [\<lparr>g_type = (if float_ge (max_sim_of fg) near_thresh then Near else Partial),
                       g_sha256 = None, g_files = map entry_of fg\<rparr>],
           used \<union> set (map it_path fg))"
      by blast
    let ?g = "\<lparr>g_type = (if float_ge (max_sim_of fg) near_thresh then Near else Partial),
               g_sha256 = None, g_files = map entry_of fg\<rparr>"
    let ?used' = "used \<union> set (map it_path fg)"
    have gp: "group_paths ?g = map it_path fg"
      by (simp add: group_paths_def entry_of_def comp_def)
    have new_ok: "near_ok near_thresh remaining ?used' ?g"
      unfolding near_ok_def using sub len by (intro exI[of _ fg]) auto
    have old_ok: "\<forall>g \<in> set ngs. near_ok near_thresh remaining ?used' g"
      using ok near_ok_mono by blast
    have fresh: "set (map it_path fg) \<inter> used = {}" using sub by auto
    have "\<forall>xs \<in> set (map group_paths ngs). set xs \<inter> set (group_paths ?g) = {}"
      using fresh u unfolding gp by auto
    then have d': "disjoint_lists (map group_paths (ngs @ [?g]))"
      using d by (simp add: disjoint_lists_append)
    have u': "?used' = \<Union> (set ` group_paths ` set (ngs @ [?g]))"
      using u gp by auto
    have "near_inv near_thresh remaining exactgs (groups @ [?g], ?used')"
      unfolding near_inv_def
      using g u' d' new_ok old_ok by (intro exI[of _ "ngs @ [?g]"]) auto
    with step st show ?thesis by simp
  qed
qed

lemma near_inv_foldl:
  "near_inv near_thresh remaining exactgs st \<Longrightarrow>
   near_inv near_thresh remaining exactgs
     (foldl (candidate_step e lsh_threshold num_perm near_thresh partial_thresh remaining) st todo)"
proof (induction todo arbitrary: st)
  case Nil
  then show ?case by simp
next
  case (Cons it todo)
  from Cons.IH[OF near_inv_step[OF Cons.prems]] show ?case by simp
qed

lemma near_inv_init: "near_inv near_thresh remaining exactgs (exactgs, {})"
  unfolding near_inv_def by (intro exI[of _ "[]"]) simp



subsection \<open>The report\<close>

definition loop_result ::
  "env \<Rightarrow> pyfloat \<Rightarrow> int \<Rightarrow> pyfloat \<Rightarrow> pyfloat \<Rightarrow> item list \<Rightarrow> dup_group list \<times> string set" where
  "loop_result e lsh_threshold num_perm near_thresh partial_thresh items =
     (let exact = exact_of (build_sha_map items);
          seen = set (concat (map (\<lambda>sg. map it_path (snd sg)) exact));
          remaining = filter (\<lambda>it. it_path it \<notin> seen) items
      in foldl (candidate_step e lsh_threshold num_perm near_thresh partial_thresh remaining)
           (map exact_group exact, {}) remaining)"

lemma build_report_structure:
  assumes "build_report e files near_thresh partial_thresh min_pages lsh_threshold num_perm = Inr r"
  shows "\<exists>scanned_items.
     scan_items e num_perm (basic_metadata e files) = Inr scanned_items \<and>
     r_groups r = fst (loop_result e lsh_threshold num_perm near_thresh partial_thresh
                        (filter_min_pages min_pages scanned_items)) \<and>
     r_singletons r = map entry_of
       (filter (\<lambda>it. it_path it \<notin> set (concat (map (\<lambda>sg. map it_path (snd sg))
                        (exact_of (build_sha_map (filter_min_pages min_pages scanned_items)))))
                    \<and> it_path it \<notin> snd (loop_result e lsh_threshold num_perm near_thresh partial_thresh
                        (filter_min_pages min_pages scanned_items)))
          (filter_min_pages min_pages scanned_items))"
proof (cases "scan_items e num_perm (basic_metadata e files)")
  case (Inl err)
  with assms show ?thesis by (simp add: build_report_def)
next
  case (Inr scanned_items)
  show ?thesis
  proof (cases "lsh_new e lsh_threshold num_perm")
    case (Some err)
    with assms Inr show ?thesis by (simp add: build_report_def Let_def)
  next
    case None
    with assms Inr show ?thesis
      by (auto simp: build_report_def loop_result_def Let_def case_prod_beta)
  qed
qed

lemma loop_result_inv:
  "near_inv near_thresh
     (filter (\<lambda>it. it_path it \<notin> set (concat (map (\<lambda>sg. map it_path (snd sg))
                 (exact_of (build_sha_map items))))) items)
     (map exact_group (exact_of (build_sha_map items)))
     (loop_result e lsh_threshold num_perm near_thresh partial_thresh items)"
  unfolding loop_result_def Let_def by (intro near_inv_foldl near_inv_init)

lemma exact_group_paths:
  "map group_paths (map exact_group exact) = map (\<lambda>sg. map it_path (snd sg)) exact"
  by (simp add: group_paths_def exact_group_def entry_of_def comp_def)

lemma filter_min_pages_subset: "set (filter_min_pages min_pages items) \<subseteq> set items"
  by (auto simp: filter_min_pages_def)

lemma filter_min_pages_paths:
  assumes "\<forall>it \<in> set items. it_pages it = page_count e (it_path it)"
  shows "map it_path (filter_min_pages min_pages items)
     = filter (passes_min_pages e min_pages) (map it_path items)"
proof (cases "0 < min_pages")
  case True
  have "filter (\<lambda>i. int (case it_pages i of None \<Rightarrow> 0 | Some n \<Rightarrow> n) \<ge> min_pages) items
      = filter (\<lambda>i. passes_min_pages e min_pages (it_path i)) items"
    using assms True by (intro filter_cong) (auto simp: passes_min_pages_def)
  then show ?thesis using True by (simp add: filter_min_pages_def filter_map comp_def)
next
  case False
  then show ?thesis by (simp add: filter_min_pages_def passes_min_pages_def)
qed

text \<open>Everything the theorems need about one run, in one place.\<close>

lemma build_report_facts:
  assumes "build_report e files near_thresh partial_thresh min_pages lsh_threshold num_perm = Inr r"
  shows "\<exists>items exact ngs used.
     (\<forall>it \<in> set items. item_ok e num_perm it) \<and>
     map it_path items = filter (passes_min_pages e min_pages) (map p_str files) \<and>
     exact = exact_of (build_sha_map items) \<and>
     r_groups r = map exact_group exact @ ngs \<and>
     used = \<Union> (set ` group_paths ` set ngs) \<and>
     disjoint_lists (map group_paths ngs) \<and>
     (\<forall>g \<in> set ngs. near_ok near_thresh
         (filter (\<lambda>it. it_path it \<notin> set (concat (map (\<lambda>sg. map it_path (snd sg)) exact))) items)
         used g) \<and>
     r_singletons r = map entry_of
       (filter (\<lambda>it. it_path it \<notin> set (concat (map (\<lambda>sg. map it_path (snd sg)) exact))
                    \<and> it_path it \<notin> used) items)"
proof -
  from build_report_structure[OF assms] obtain scanned_items where
    scan: "scan_items e num_perm (basic_metadata e files) = Inr scanned_items" and
    groups: "r_groups r = fst (loop_result e lsh_threshold num_perm near_thresh partial_thresh
                        (filter_min_pages min_pages scanned_items))" and
    singles: "r_singletons r = map entry_of
       (filter (\<lambda>it. it_path it \<notin> set (concat (map (\<lambda>sg. map it_path (snd sg))
                        (exact_of (build_sha_map (filter_min_pages min_pages scanned_items)))))
                    \<and> it_path it \<notin> snd (loop_result e lsh_threshold num_perm near_thresh partial_thresh
                        (filter_min_pages min_pages scanned_items)))
          (filter_min_pages min_pages scanned_items))"
    by blast
  let ?items = "filter_min_pages min_pages scanned_items"
  let ?exact = "exact_of (build_sha_map ?items)"
  let ?st = "loop_result e lsh_threshold num_perm near_thresh partial_thresh ?items"
  let ?remaining = "filter (\<lambda>it. it_path it \<notin> set (concat (map (\<lambda>sg. map it_path (snd sg)) ?exact))) ?items"
  from scan_items_ok[OF scan] have
    paths: "map it_path scanned_items = map fm_path (basic_metadata e files)" and
    ok: "\<forall>it \<in> set scanned_items. item_ok e num_perm it" by auto
  have ok': "\<forall>it \<in> set ?items. item_ok e num_perm it"
    using ok filter_min_pages_subset by blast
  have "map fm_path (basic_metadata e files) = map p_str files"
    by (simp add: basic_metadata_def comp_def)
  with paths have p2: "map it_path scanned_items = map p_str files" by simp
  have "\<forall>it \<in> set scanned_items. it_pages it = page_count e (it_path it)"
    using ok by (simp add: item_ok_def)
  from filter_min_pages_paths[OF this, of min_pages] p2
  have p3: "map it_path ?items = filter (passes_min_pages e min_pages) (map p_str files)" by simp
  from loop_result_inv[of near_thresh ?items e lsh_threshold num_perm partial_thresh]
  obtain ngs where
    g: "fst ?st = map exact_group ?exact @ ngs" and
    u: "snd ?st = \<Union> (set ` group_paths ` set ngs)" and
    d: "disjoint_lists (map group_paths ngs)" and
    n: "\<forall>g \<in> set ngs. near_ok near_thresh ?remaining (snd ?st) g"
    unfolding near_inv_def by blast
  show ?thesis
    apply (rule exI[of _ ?items], rule exI[of _ ?exact], rule exI[of _ ngs], rule exI[of _ "snd ?st"])
    using ok' p3 g u d n groups singles by simp
qed



lemma exact_members_items:
  "(k, g) \<in> set (exact_of (build_sha_map items)) \<Longrightarrow> set g \<subseteq> set items"
  using exact_of_members[of k g items] by auto

lemma near_ok_paths:
  assumes "near_ok t remaining used g"
  shows "set (group_paths g) \<subseteq> it_path ` set remaining \<and> set (group_paths g) \<subseteq> used"
proof -
  from assms obtain fg where fg: "g_files g = map entry_of fg" "set fg \<subseteq> set remaining"
    "set (map it_path fg) \<subseteq> used" unfolding near_ok_def by blast
  have "group_paths g = map it_path fg"
    using fg(1) by (simp add: group_paths_def entry_of_def comp_def)
  with fg show ?thesis by auto
qed

lemma seen_eq:
  "set (concat (map (\<lambda>sg. map it_path (snd sg)) exact))
     = \<Union> (set ` set (map group_paths (map exact_group exact)))"
  unfolding exact_group_paths by simp

lemma all_groups_union:
  "\<Union> (set ` set (map group_paths (xs @ ngs)))
     = \<Union> (set ` set (map group_paths xs)) \<union> \<Union> (set ` group_paths ` set ngs)"
  by (simp add: image_Un image_image)

subsection \<open>The remaining files have distinct paths\<close>

lemma exact_of_complete:
  assumes "1 < length (filter (\<lambda>i. it_sha256 i = k) items)"
  shows "(k, filter (\<lambda>i. it_sha256 i = k) items) \<in> set (exact_of (build_sha_map items))"
proof -
  from assms have "filter (\<lambda>i. it_sha256 i = k) items \<noteq> []" by auto
  then have "k \<in> it_sha256 ` set items" by (auto simp: filter_empty_conv)
  with sha_inv_lookup[OF sha_inv_build, of items k]
  have "map_of (build_sha_map items) k = Some (filter (\<lambda>i. it_sha256 i = k) items)" by simp
  then have "(k, filter (\<lambda>i. it_sha256 i = k) items) \<in> set (build_sha_map items)"
    by (rule map_of_SomeD)
  with assms show ?thesis by (simp add: exact_of_def)
qed

lemma length_filter_mono:
  "(\<And>x. x \<in> set xs \<Longrightarrow> P x \<Longrightarrow> Q x) \<Longrightarrow> length (filter P xs) \<le> length (filter Q xs)"
  by (induction xs) auto

lemma distinct_map_count:
  "(\<And>p. length (filter (\<lambda>x. f x = p) xs) \<le> 1) \<Longrightarrow> distinct (map f xs)"
proof (induction xs)
  case Nil
  show ?case by simp
next
  case (Cons x xs)
  have "length (filter (\<lambda>y. f y = p) xs) \<le> 1" for p
    using Cons.prems[of p] by (simp split: if_splits)
  then have d: "distinct (map f xs)" by (rule Cons.IH)
  have "f x \<notin> f ` set xs"
  proof
    assume "f x \<in> f ` set xs"
    then have "filter (\<lambda>y. f y = f x) xs \<noteq> []" by (auto simp: filter_empty_conv)
    then have "1 \<le> length (filter (\<lambda>y. f y = f x) xs)" by (simp add: Suc_leI)
    with Cons.prems[of "f x"] show False by simp
  qed
  with d show ?case by simp
qed

lemma remaining_distinct:
  assumes "\<forall>it \<in> set items. item_ok e num_perm it"
  shows "distinct (map it_path (filter (\<lambda>it. it_path it \<notin> set (concat (map (\<lambda>sg. map it_path (snd sg))
             (exact_of (build_sha_map items))))) items))"
proof (rule distinct_map_count)
  fix p
  let ?seen = "set (concat (map (\<lambda>sg. map it_path (snd sg)) (exact_of (build_sha_map items))))"
  let ?rem = "filter (\<lambda>it. it_path it \<notin> ?seen) items"
  show "length (filter (\<lambda>x. it_path x = p) ?rem) \<le> 1"
  proof (rule ccontr)
    assume "\<not> length (filter (\<lambda>x. it_path x = p) ?rem) \<le> 1"
    then have two: "1 < length (filter (\<lambda>x. it_path x = p) ?rem)" by simp
    then have "filter (\<lambda>x. it_path x = p) ?rem \<noteq> []" by auto
    then obtain x where x: "x \<in> set items" "it_path x = p" "p \<notin> ?seen"
      by (auto simp: filter_empty_conv)
    let ?k = "it_sha256 x"
    have "length (filter (\<lambda>x. it_path x = p) ?rem) \<le> length (filter (\<lambda>i. it_sha256 i = ?k) items)"
    proof -
      have "filter (\<lambda>x. it_path x = p) ?rem = filter (\<lambda>y. it_path y \<notin> ?seen \<and> it_path y = p) items"
        by (simp add: conj_commute)
      also have "length \<dots> \<le> length (filter (\<lambda>i. it_sha256 i = ?k) items)"
      proof (rule length_filter_mono)
        fix y assume "y \<in> set items" "it_path y \<notin> ?seen \<and> it_path y = p"
        with x assms item_ok_same_sha[of e num_perm y x] show "it_sha256 y = ?k" by auto
      qed
      finally show ?thesis .
    qed
    with two have "1 < length (filter (\<lambda>i. it_sha256 i = ?k) items)" by simp
    from exact_of_complete[OF this]
    have "(?k, filter (\<lambda>i. it_sha256 i = ?k) items) \<in> set (exact_of (build_sha_map items))" .
    moreover have "x \<in> set (filter (\<lambda>i. it_sha256 i = ?k) items)" using x(1) by simp
    ultimately have "it_path x \<in> ?seen" by force
    with x show False by simp
  qed
qed

section \<open>Theorems\<close>

text \<open>
  C7: text normalization is idempotent: for every input string \<open>x\<close>,
  normalizing the normalized text gives the normalized text again.
\<close>

theorem normalize_text_idempotent: "normalize_text (normalize_text x) = normalize_text x"
proof -
  let ?r = "normalize_text x"
  have w: "ws_ok ?r"
    unfolding normalize_text_def by (intro ws_ok_strip ws_ok_sub_join ws_ok_sub_ws)
  have j: "join_ok ?r"
    unfolding normalize_text_def by (intro join_ok_strip join_ok_sub_join)
  have s: "strip ?r = ?r"
    unfolding normalize_text_def by (rule strip_id) (rule strip_ends)
  have "normalize_text ?r = strip (sub_join (sub_ws (replace_nl ?r)))"
    by (simp add: normalize_text_def)
  also have "\<dots> = strip (sub_join (sub_ws ?r))" using replace_nl_id[OF w] by simp
  also have "\<dots> = strip (sub_join ?r)" using sub_ws_id[OF w] by simp
  also have "\<dots> = strip ?r" using sub_join_id[OF j] by simp
  also have "\<dots> = ?r" by (rule s)
  finally show ?thesis .
qed

theorem normalize_text_idempotent_witness:
  "normalize_text (normalize_text ''  fooBar  bazQ '') = normalize_text ''  fooBar  bazQ ''"
  using normalize_text_idempotent[of "''  fooBar  bazQ ''"] by simp

text \<open>
  C9: the pairwise text similarity is bounded and defined on empty texts: for all strings
  \<open>a\<close> and \<open>b\<close> the result lies in the range from 0 to 1, and it is 1 when both are
  empty. (Symmetry does not hold: see \<open>similarity_not_symmetric\<close>.)
\<close>

theorem similarity_bounds:
  "0 \<le> similarity a b \<and> similarity a b \<le> 1 \<and> similarity [] [] = 1"
  using ratio_bounds[of a b] by (simp add: similarity_def)

theorem similarity_bounds_witness:
  "0 \<le> similarity ''tide'' ''diet'' \<and> similarity ''tide'' ''diet'' \<le> 1 \<and> similarity [] [] = 1"
  using similarity_bounds[of "''tide''" "''diet''"] by simp

text \<open>
  The claim of symmetry fails: the matcher anchors on the longest block found from the
  first sequence, so swapping the arguments changes the blocks. For \<open>tide\<close> and \<open>diet\<close>
  the ratios are 1/4 and 1/2.
\<close>

lemma similarity_tide_diet: "similarity ''tide'' ''diet'' = 1 / 4"
  by code_simp

lemma similarity_diet_tide: "similarity ''diet'' ''tide'' = 1 / 2"
  by code_simp

theorem similarity_not_symmetric:
  "\<not> (\<forall>a b. similarity a b = similarity b a)"
proof
  assume "\<forall>a b. similarity a b = similarity b a"
  then have "similarity ''tide'' ''diet'' = similarity ''diet'' ''tide''" by blast
  then show False by (simp add: similarity_tide_diet similarity_diet_tide)
qed

text \<open>
  C5: with the threshold 0.85, \<open>canonicalize_person\<close> resolves a name (returns an identity
  id) if and only if the index has an alias and the best score of the normalized name
  over all aliases of all identities is at least 0.85. The witness resolves a name whose
  best score is exactly 0.85 and leaves unresolved one whose best score is 5/6.
\<close>

theorem canonicalize_person_threshold:
  "res_id (canonicalize_person rnd name people_index (85 / 100)) \<noteq> None \<longleftrightarrow>
     all_scores (normalize_text (strip_middle_initial name)) people_index \<noteq> [] \<and>
     Max (set (all_scores (normalize_text (strip_middle_initial name)) people_index)) \<ge> 85 / 100"
proof -
  let ?s = "all_scores (normalize_text (strip_middle_initial name)) people_index"
  have "res_id (canonicalize_person rnd name people_index (85 / 100)) \<noteq> None \<longleftrightarrow>
      (\<exists>s \<in> set ?s. s \<ge> 85 / 100)"
    by (rule canonicalize_person_resolved) simp
  also have "\<dots> \<longleftrightarrow> ?s \<noteq> [] \<and> Max (set ?s) \<ge> 85 / 100"
  proof -
    have "(\<exists>s \<in> set ?s. s \<ge> t) \<longleftrightarrow> ?s \<noteq> [] \<and> Max (set ?s) \<ge> t" for t
      by (cases "?s = []") (auto simp: Max_ge_iff)
    then show ?thesis .
  qed
  finally show ?thesis .
qed

lemma scores_exact:
  "all_scores (normalize_text (strip_middle_initial ''Maximilian A. Smithson''))
     [\<lparr>person_id = ''p1'', names = [''Maximilian T Smithers'']\<rparr>] = [85 / 100]"
  by code_simp

lemma scores_below:
  "all_scores (normalize_text (strip_middle_initial ''Maximilian A. Smithson''))
     [\<lparr>person_id = ''p2'', names = [''Maximilian Smythe'']\<rparr>] = [5 / 6]"
  by code_simp

theorem canonicalize_person_threshold_witness:
  "res_id (canonicalize_person (\<lambda>x. x) ''Maximilian A. Smithson''
      [\<lparr>person_id = ''p1'', names = [''Maximilian T Smithers'']\<rparr>] (85 / 100)) \<noteq> None
   \<and> res_id (canonicalize_person (\<lambda>x. x) ''Maximilian A. Smithson''
      [\<lparr>person_id = ''p2'', names = [''Maximilian Smythe'']\<rparr>] (85 / 100)) = None"
  using canonicalize_person_threshold[of "\<lambda>x. x" "''Maximilian A. Smithson''"
          "[\<lparr>person_id = ''p1'', names = [''Maximilian T Smithers'']\<rparr>]"]
        canonicalize_person_threshold[of "\<lambda>x. x" "''Maximilian A. Smithson''"
          "[\<lparr>person_id = ''p2'', names = [''Maximilian Smythe'']\<rparr>]"]
  by (simp add: scores_exact scores_below)

text \<open>
  C6: for every list of unresolved names, \<open>cluster_people\<close> returns without an error and
  places each name, in order, into the first existing cluster whose first member scores
  strictly above 0.85 against it, starting a new cluster otherwise. (A score of exactly
  0.85 does not join: see \<open>cluster_people_boundary_counterexample\<close>, where the rule with
  "at least 0.85" would give one cluster and the code gives two.)
\<close>

theorem cluster_people_strict:
  "cluster_people unresolved = Inr (foldl (spec_join (\<lambda>s. s > 85 / 100)) [] unresolved)"
  unfolding cluster_people_def by (rule cluster_loop_spec) simp

lemma score_smithson: "score_person ''Maximilian Smithson'' ''Maximilian T Smithers'' = 85 / 100"
  by code_simp

lemma cluster_smithson:
  "cluster_people [''Maximilian T Smithers'', ''Maximilian Smithson'']
     = Inr [[''Maximilian T Smithers''], [''Maximilian Smithson'']]"
  by code_simp

lemma spec_smithson:
  "foldl (spec_join (\<lambda>s. s \<ge> 85 / 100)) [] [''Maximilian T Smithers'', ''Maximilian Smithson'']
     = [[''Maximilian T Smithers'', ''Maximilian Smithson'']]"
  by code_simp

theorem cluster_people_strict_witness:
  "cluster_people [''Maximilian T Smithers'', ''Maximilian Smithson'', ''Maximilian T Smithers'']
     = Inr [[''Maximilian T Smithers'', ''Maximilian T Smithers''], [''Maximilian Smithson'']]"
proof -
  have "foldl (spec_join (\<lambda>s. s > 85 / 100)) []
      [''Maximilian T Smithers'', ''Maximilian Smithson'', ''Maximilian T Smithers'']
     = [[''Maximilian T Smithers'', ''Maximilian T Smithers''], [''Maximilian Smithson'']]"
    by code_simp
  then show ?thesis
    using cluster_people_strict[of "[''Maximilian T Smithers'', ''Maximilian Smithson'', ''Maximilian T Smithers'']"]
    by simp
qed

theorem cluster_people_boundary_counterexample:
  "score_person ''Maximilian Smithson'' ''Maximilian T Smithers'' = 85 / 100 \<and>
   cluster_people [''Maximilian T Smithers'', ''Maximilian Smithson'']
     \<noteq> Inr (foldl (spec_join (\<lambda>s. s \<ge> 85 / 100)) [] [''Maximilian T Smithers'', ''Maximilian Smithson''])"
  unfolding score_smithson cluster_smithson spec_smithson by simp


section \<open>Theorems about the report\<close>

text \<open>
  The theorems below are about the report a run returns. A run returns a report whenever
  every file can be read and the two library constructors accept the parameters:
\<close>

lemma build_report_returns:
  assumes "\<forall>p \<in> set files. file_bytes e (p_str p) \<noteq> None"
    and "minhash_new e num_perm = Inr m0" and "lsh_new e lsh_threshold num_perm = None"
  shows "\<exists>r. build_report e files near_thresh partial_thresh min_pages lsh_threshold num_perm = Inr r"
proof -
  have "\<forall>m \<in> set (basic_metadata e files). file_bytes e (fm_path m) \<noteq> None"
    using assms(1) by (auto simp: basic_metadata_def)
  from scan_items_returns[OF assms(2) this] obtain items where
    "scan_items e num_perm (basic_metadata e files) = Inr items" by blast
  then show ?thesis using assms(3) by (simp add: build_report_def Let_def case_prod_beta)
qed

lemma build_report_raises:
  assumes "p \<in> set files" "file_bytes e (p_str p) = None"
  shows "\<exists>err. build_report e files near_thresh partial_thresh min_pages lsh_threshold num_perm = Inl err"
proof -
  let ?m = "\<lparr>fm_path = p_str p, fm_name = p_name p,
             fm_size = (case stat_size e (p_str p) of None \<Rightarrow> 0 | Some n \<Rightarrow> n)\<rparr>"
  have "?m \<in> set (basic_metadata e files)" using assms(1) by (auto simp: basic_metadata_def)
  moreover have "file_bytes e (fm_path ?m) = None" using assms(2) by simp
  ultimately obtain err where "scan_items e num_perm (basic_metadata e files) = Inl err"
    using scan_items_error by blast
  then show ?thesis by (simp add: build_report_def)
qed

subsection \<open>The example run, evaluated\<close>

lemma ex_run:
  "build_report ex_env ex_files (Finite (7 / 8)) (Finite (5 / 8)) 0 (Finite (4 / 5)) 2 = Inr ex_report"
  by code_simp

lemma ex_run_filtered:
  "build_report ex_env ex_files (Finite (7 / 8)) (Finite (5 / 8)) 2 (Finite (4 / 5)) 2 =
     Inr \<lparr>r_summary =
            \<lparr>total_files = 5, scanned = 0, exact_groups = 0, near_groups = 0,
             partial_groups = 0, singletons = 0\<rparr>,
          r_groups = [], r_singletons = []\<rparr>"
  by code_simp

lemma ex_run_missing:
  "build_report ex_env (ex_files @ [ex_path ''missing.pdf'']) (Finite (7 / 8)) (Finite (5 / 8)) 0
     (Finite (4 / 5)) 2 = Inl (FileError ''missing.pdf'')"
  by code_simp

lemma ex_entries:
  "map (\<lambda>x. (f_path x, f_minhash x)) (report_entries ex_report) =
     [(''a.pdf'', [5, 5]), (''b.pdf'', [5, 5]), (''c.pdf'', [11, 11]), (''d.pdf'', [11, 11]),
      (''e.pdf'', [5, 5])]"
  by code_simp

lemma ex_final_hi:
  "final_group_of (Finite (7 / 8)) ex_candidates
     = [ex_item ''c.pdf'' ''abcdefghij'', ex_item ''d.pdf'' ''abcdefghix'']"
  by code_simp

lemma ex_final_lo: "final_group_of (Finite (1 / 2)) ex_candidates = ex_candidates"
  by code_simp

text \<open>
  C1: for every run of \<open>build_report\<close> that returns a report, the lists of paths of the
  groups (exact, near and partial) and the list of paths of the singletons are pairwise
  disjoint, so no path is a member of two groups or of a group and the singletons; and
  the paths that appear in a group or in the singletons are exactly the paths of the
  files that pass the \<open>min_pages\<close> filter. (A file removed by the filter appears nowhere:
  see \<open>build_report_filtered_counterexample\<close>.)
\<close>

theorem build_report_partition:
  assumes "build_report e files near_thresh partial_thresh min_pages lsh_threshold num_perm = Inr r"
  shows "disjoint_lists (map group_paths (r_groups r) @ [map f_path (r_singletons r)]) \<and>
     set (concat (map group_paths (r_groups r))) \<union> set (map f_path (r_singletons r))
       = set (filter (passes_min_pages e min_pages) (map p_str files))"
proof -
  from build_report_facts[OF assms] obtain items exact ngs used where
    ok: "\<forall>it \<in> set items. item_ok e num_perm it" and
    paths: "map it_path items = filter (passes_min_pages e min_pages) (map p_str files)" and
    exact: "exact = exact_of (build_sha_map items)" and
    groups: "r_groups r = map exact_group exact @ ngs" and
    used: "used = \<Union> (set ` group_paths ` set ngs)" and
    dn: "disjoint_lists (map group_paths ngs)" and
    near: "\<forall>g \<in> set ngs. near_ok near_thresh
         (filter (\<lambda>it. it_path it \<notin> set (concat (map (\<lambda>sg. map it_path (snd sg)) exact))) items)
         used g" and
    singles: "r_singletons r = map entry_of
       (filter (\<lambda>it. it_path it \<notin> set (concat (map (\<lambda>sg. map it_path (snd sg)) exact))
                    \<and> it_path it \<notin> used) items)"
    by blast
  let ?seen = "set (concat (map (\<lambda>sg. map it_path (snd sg)) exact))"
  let ?remaining = "filter (\<lambda>it. it_path it \<notin> ?seen) items"
  let ?singles = "filter (\<lambda>it. it_path it \<notin> ?seen \<and> it_path it \<notin> used) items"
  have egp: "map group_paths (map exact_group exact) = map (\<lambda>sg. map it_path (snd sg)) exact"
    by (rule exact_group_paths)
  note seen_eq = seen_eq[of exact]
  have "disjoint_lists (map (\<lambda>sg. map it_path (snd sg)) exact)"
    unfolding exact by (rule exact_disjoint) (use ok item_ok_same_sha in blast)
  then have de: "disjoint_lists (map group_paths (map exact_group exact))"
    unfolding egp .
  have near_paths: "set (group_paths g) \<subseteq> it_path ` set ?remaining \<and> set (group_paths g) \<subseteq> used"
    if "g \<in> set ngs" for g
    using near that near_ok_paths by blast
  have cross: "set xs \<inter> set ys = {}"
    if "xs \<in> set (map group_paths (map exact_group exact))" "ys \<in> set (map group_paths ngs)" for xs ys
  proof -
    from that(1) have "set xs \<subseteq> ?seen" unfolding seen_eq by blast
    moreover from that(2) near_paths have "set ys \<subseteq> it_path ` set ?remaining" by auto
    moreover have "it_path ` set ?remaining \<inter> ?seen = {}" by auto
    ultimately show ?thesis by blast
  qed
  have dg: "disjoint_lists (map group_paths (r_groups r))"
    unfolding groups map_append disjoint_lists_append using de dn cross by blast
  have sp: "map f_path (r_singletons r) = map it_path ?singles"
    unfolding singles by (simp add: entry_of_def comp_def)
  have all_groups: "\<Union> (set ` set (map group_paths (r_groups r))) = ?seen \<union> used"
    unfolding groups all_groups_union seen_eq[symmetric] used ..
  have sing_disj: "set xs \<inter> set (map f_path (r_singletons r)) = {}"
    if "xs \<in> set (map group_paths (r_groups r))" for xs
  proof -
    from that all_groups have "set xs \<subseteq> ?seen \<union> used" by blast
    moreover have "set (map it_path ?singles) \<inter> (?seen \<union> used) = {}" by auto
    ultimately show ?thesis unfolding sp by blast
  qed
  have 1: "disjoint_lists (map group_paths (r_groups r) @ [map f_path (r_singletons r)])"
    unfolding disjoint_lists_append using dg sing_disj by simp
  have seen_sub: "?seen \<subseteq> it_path ` set items"
  proof
    fix p assume "p \<in> ?seen"
    then obtain k g x where "(k, g) \<in> set exact" "x \<in> set g" "p = it_path x" by auto
    with exact_members_items[of k g items] exact show "p \<in> it_path ` set items" by blast
  qed
  have used_sub: "used \<subseteq> it_path ` set items"
  proof
    fix p assume "p \<in> used"
    then obtain g where g: "g \<in> set ngs" "p \<in> set (group_paths g)" unfolding used by auto
    from near_paths[OF g(1)] g(2) have "p \<in> it_path ` set ?remaining" by blast
    then show "p \<in> it_path ` set items" by auto
  qed
  have "set (concat (map group_paths (r_groups r))) \<union> set (map f_path (r_singletons r))
      = (?seen \<union> used) \<union> set (map it_path ?singles)"
    using all_groups sp by simp
  also have "\<dots> = it_path ` set items"
  proof (intro equalityI subsetI)
    fix p assume "p \<in> (?seen \<union> used) \<union> set (map it_path ?singles)"
    moreover have "set (map it_path ?singles) \<subseteq> it_path ` set items" by auto
    ultimately show "p \<in> it_path ` set items" using seen_sub used_sub by blast
  next
    fix p assume "p \<in> it_path ` set items"
    then obtain x where x: "x \<in> set items" "p = it_path x" by blast
    show "p \<in> (?seen \<union> used) \<union> set (map it_path ?singles)"
    proof (cases "p \<in> ?seen \<or> p \<in> used")
      case True
      then show ?thesis by blast
    next
      case False
      with x have "x \<in> set ?singles" by simp
      then have "it_path x \<in> it_path ` set ?singles" by (rule imageI)
      then have "p \<in> set (map it_path ?singles)" unfolding x(2) set_map .
      then show ?thesis by blast
    qed
  qed
  also have "\<dots> = set (filter (passes_min_pages e min_pages) (map p_str files))"
    using paths by (metis set_map)
  finally have 2: "set (concat (map group_paths (r_groups r))) \<union> set (map f_path (r_singletons r))
      = set (filter (passes_min_pages e min_pages) (map p_str files))" .
  from 1 2 show ?thesis ..
qed

theorem build_report_partition_witness:
  "build_report ex_env ex_files (Finite (7 / 8)) (Finite (5 / 8)) 0 (Finite (4 / 5)) 2 = Inr ex_report \<and>
   disjoint_lists (map group_paths (r_groups ex_report) @ [map f_path (r_singletons ex_report)]) \<and>
   set (concat (map group_paths (r_groups ex_report))) \<union> set (map f_path (r_singletons ex_report))
     = set (filter (passes_min_pages ex_env 0) (map p_str ex_files))"
  using build_report_partition[OF ex_run] ex_run by blast

theorem build_report_filtered_counterexample:
  "\<exists>r. build_report ex_env ex_files (Finite (7 / 8)) (Finite (5 / 8)) 2 (Finite (4 / 5)) 2 = Inr r \<and>
       ''a.pdf'' \<in> set (map p_str ex_files) \<and>
       ''a.pdf'' \<notin> set (concat (map group_paths (r_groups r))) \<union> set (map f_path (r_singletons r))"
  unfolding ex_run_filtered by (simp add: ex_files_def ex_path_def)

text \<open>
  C2: for every run that returns a report, every group member entry and every singleton
  entry carries the MinHash signature of its file: the \<open>minhash\<close> field of the entry is the
  signature \<open>build_minhash\<close> computes from the text extracted from the file at the entry's
  path. (The claim that the entries exclude the signature fails: see
  \<open>report_carries_signature_counterexample\<close>.)
\<close>

theorem report_entries_signature:
  assumes "build_report e files near_thresh partial_thresh min_pages lsh_threshold num_perm = Inr r"
  shows "\<forall>x \<in> set (report_entries r).
     signature_of e num_perm (f_path x) = Inr (f_minhash x)"
proof
  fix x assume x: "x \<in> set (report_entries r)"
  from build_report_facts[OF assms] obtain items exact ngs used where
    ok: "\<forall>it \<in> set items. item_ok e num_perm it" and
    exact: "exact = exact_of (build_sha_map items)" and
    groups: "r_groups r = map exact_group exact @ ngs" and
    near: "\<forall>g \<in> set ngs. near_ok near_thresh
         (filter (\<lambda>it. it_path it \<notin> set (concat (map (\<lambda>sg. map it_path (snd sg)) exact))) items)
         used g" and
    singles: "r_singletons r = map entry_of
       (filter (\<lambda>it. it_path it \<notin> set (concat (map (\<lambda>sg. map it_path (snd sg)) exact))
                    \<and> it_path it \<notin> used) items)"
    by blast
  have "\<exists>it \<in> set items. x = entry_of it"
  proof -
    from x consider
      (ex) g where "g \<in> set (map exact_group exact)" "x \<in> set (g_files g)" |
      (nr) g where "g \<in> set ngs" "x \<in> set (g_files g)" |
      (sg) "x \<in> set (r_singletons r)"
      unfolding report_entries_def groups by auto
    then show ?thesis
    proof cases
      case ex
      then obtain k grp where "(k, grp) \<in> set exact" "x \<in> set (map entry_of grp)"
        by (auto simp: exact_group_def)
      with exact_members_items[of k grp items] exact show ?thesis by auto
    next
      case nr
      with near obtain fg where "g_files g = map entry_of fg"
        "set fg \<subseteq> set (filter (\<lambda>it. it_path it \<notin> set (concat (map (\<lambda>sg. map it_path (snd sg)) exact))) items)"
        unfolding near_ok_def by blast
      with nr(2) show ?thesis by auto
    next
      case sg
      then show ?thesis unfolding singles by auto
    qed
  qed
  then obtain it where it: "it \<in> set items" "x = entry_of it" by blast
  with ok have "item_ok e num_perm it" by blast
  then show "signature_of e num_perm (f_path x) = Inr (f_minhash x)"
    unfolding it(2) by (simp add: item_ok_def entry_of_def)
qed

theorem report_entries_signature_witness:
  "build_report ex_env ex_files (Finite (7 / 8)) (Finite (5 / 8)) 0 (Finite (4 / 5)) 2 = Inr ex_report \<and>
   list_all (\<lambda>x. signature_of ex_env 2 (f_path x) = Inr (f_minhash x)) (report_entries ex_report)"
  using report_entries_signature[OF ex_run] ex_run by (simp add: list_all_iff)

theorem report_carries_signature_counterexample:
  "\<exists>r. build_report ex_env ex_files (Finite (7 / 8)) (Finite (5 / 8)) 0 (Finite (4 / 5)) 2 = Inr r \<and>
       map (\<lambda>x. (f_path x, f_minhash x)) (report_entries r) =
         [(''a.pdf'', [5, 5]), (''b.pdf'', [5, 5]), (''c.pdf'', [11, 11]), (''d.pdf'', [11, 11]),
          (''e.pdf'', [5, 5])]"
  unfolding ex_run using ex_entries by simp

text \<open>
  C3: the run on a list with a missing file. The size of the missing file is recorded as
  0 and its page count as null, but \<open>sha256_file\<close> raises and \<open>build_report\<close> returns no
  report, although every other file of the list is readable.
\<close>

theorem build_report_missing_file_raises:
  "basic_metadata ex_env [ex_path ''missing.pdf'']
     = [\<lparr>fm_path = ''missing.pdf'', fm_name = ''missing.pdf'', fm_size = 0\<rparr>] \<and>
   page_count ex_env ''missing.pdf'' = None \<and>
   build_report ex_env (ex_files @ [ex_path ''missing.pdf'']) (Finite (7 / 8)) (Finite (5 / 8)) 0
     (Finite (4 / 5)) 2 = Inl (FileError ''missing.pdf'')"
  unfolding ex_run_missing
  by (simp add: basic_metadata_def ex_path_def ex_env_def ex_bytes_def page_count_def)



text \<open>
  C8: refinement admission is antitone in the partial threshold: for a fixed list of
  candidates (the anchor first), every member of the refined group at the threshold
  \<open>t'\<close> is a member of the refined group at any threshold \<open>t\<close> with \<open>t <= t'\<close>.
\<close>

lemma float_ge_le: "float_ge x t' \<Longrightarrow> float_le t t' \<Longrightarrow> float_ge x t"
  by (cases t; cases t') auto

theorem final_group_antitone:
  assumes "float_le t t'"
  shows "set (final_group_of t' group_items) \<subseteq> set (final_group_of t group_items)"
  using assms float_ge_le by (cases group_items) (auto simp: final_group_of_def)

theorem final_group_antitone_witness:
  "float_le (Finite (1 / 2)) (Finite (7 / 8)) \<and>
   set (final_group_of (Finite (7 / 8)) ex_candidates) \<subseteq> set (final_group_of (Finite (1 / 2)) ex_candidates) \<and>
   length (final_group_of (Finite (7 / 8)) ex_candidates) = 2 \<and>
   length (final_group_of (Finite (1 / 2)) ex_candidates) = 3"
proof -
  have le: "float_le (Finite (1 / 2)) (Finite (7 / 8))" by simp
  have "length (final_group_of (Finite (7 / 8)) ex_candidates) = 2"
    unfolding ex_final_hi by simp
  moreover have "length (final_group_of (Finite (1 / 2)) ex_candidates) = 3"
    unfolding ex_final_lo by (simp add: ex_candidates_def)
  ultimately show ?thesis using final_group_antitone[OF le, of ex_candidates] le by blast
qed

end
